theory Spec2Isabelle
  imports Main "HOL-Library.Multiset"
begin

section \<open>Values of the plugin system\<close>

text \<open>
  The merge engine of \<^verbatim>\<open>src/plugins/resolve.ts\<close> moves integration providers, auth
  providers, permissions, action definitions, middleware, route handlers and lifecycle
  hooks around without ever looking inside them. They are TypeScript objects and functions,
  so each one is a reference; the model keeps only the identity of the reference.
  Every such value is truthy in JavaScript.
\<close>

datatype opaque = Opaque nat

type_synonym IntegrationProvider = opaque
type_synonym AuthProvider = opaque
type_synonym Permission = opaque
type_synonym ActionDefinition = opaque
type_synonym PipelineMiddleware = opaque
type_synonym RouteHandler = opaque
type_synonym Hook = opaque

subsection \<open>Plain JavaScript objects used as dictionaries\<close>

text \<open>
  A \<^verbatim>\<open>Record<string, V>\<close> is a plain object. The model keeps its own enumerable
  properties as an association list, in the order in which \<^verbatim>\<open>Object.entries\<close>
  lists them; an object has no two own properties of the same name, which is the side
  condition \<open>distinct (map fst obj)\<close> wherever it matters. \<^verbatim>\<open>Object.entries\<close>
  lists the keys that are array indices first, in ascending order; for the dictionaries
  that the merge builds this place is not modelled, and the theorems of the last section
  read them through \<open>map_of\<close> and the set of their keys only.

  A plain object, the literal \<^verbatim>\<open>{}\<close> included, inherits from
  \<^verbatim>\<open>Object.prototype\<close>. Both \<^verbatim>\<open>key in obj\<close> and the read
  \<^verbatim>\<open>obj[key]\<close> follow the prototype chain, so they see the properties that
  ECMAScript puts on \<^verbatim>\<open>Object.prototype\<close> as well. Each of those is a function,
  or for \<^verbatim>\<open>__proto__\<close> the prototype object itself: truthy, and without a method
  \<^verbatim>\<open>includes\<close>. The mappings of a descriptor are taken to be plain objects too,
  as an object literal gives them.
\<close>

type_synonym 'v dict = "(string \<times> 'v) list"

definition objectPrototypeKeys :: "string list" where
  "objectPrototypeKeys =
     [''constructor'', ''hasOwnProperty'', ''isPrototypeOf'', ''propertyIsEnumerable'',
      ''toLocaleString'', ''toString'', ''valueOf'', ''__proto__'',
      ''__defineGetter__'', ''__defineSetter__'', ''__lookupGetter__'', ''__lookupSetter__'']"

definition hasOwn :: "'v dict \<Rightarrow> string \<Rightarrow> bool" where
  "hasOwn obj key = (map_of obj key \<noteq> None)"

text \<open>
  \<^verbatim>\<open>key in obj\<close>. Every value stored in the dictionaries of this program is an
  object, an array or a function, so the test \<^verbatim>\<open>if (obj[key])\<close> has the same outcome.
\<close>

definition hasProperty :: "'v dict \<Rightarrow> string \<Rightarrow> bool" where
  "hasProperty obj key = (hasOwn obj key \<or> key \<in> set objectPrototypeKeys)"

text \<open>
  The assignment \<^verbatim>\<open>obj[key] = v\<close>: an existing own property keeps its place, a new
  one goes to the end.
\<close>

fun setProp :: "string \<Rightarrow> 'v \<Rightarrow> 'v dict \<Rightarrow> 'v dict" where
  "setProp key v [] = [(key, v)]"
| "setProp key v ((k, w) # obj) =
     (if k = key then (key, v) # obj else (k, w) # setProp key v obj)"

subsection \<open>The store\<close>

text \<open>
  Arrays and dictionaries are mutable objects, and a variable or a property holds a
  reference to one. Where sharing matters the program is modelled over a store, split by
  the type of the object as in the models of Burstall and Bornat: the arrays of opaque
  objects, the arrays of strings, the dictionaries of opaque objects, and the dictionaries
  from a role to the reference of its array of strings. An address is an index into
  the list for its type, and allocation appends to that list. The plugin descriptors are
  objects of the store too; their fields hold the addresses of their arrays and
  dictionaries. The field names are those of the source, so they are written with their
  record name, \<open>PluginRef.roles\<close>.
\<close>

type_synonym addr = nat

record HooksRef =
  onInit :: addr
  onRequest :: addr
  onError :: addr
  onShutdown :: addr

record ResolvedRef =
  integrations :: addr
  auth :: "AuthProvider option"
  permissions :: addr
  roles :: addr
  actions :: addr
  middleware :: addr
  routes :: addr
  hooks :: HooksRef

record PluginRef =
  name :: string
  integrations :: "addr option"
  auth :: "AuthProvider option"
  permissions :: "addr option"
  roles :: "addr option"
  actions :: "addr option"
  middleware :: "addr option"
  routes :: "addr option"
  onInit :: "Hook option"
  onRequest :: "Hook option"
  onError :: "Hook option"
  onShutdown :: "Hook option"

record Heap =
  descriptors :: "PluginRef list"
  objArrays :: "opaque list list"
  strArrays :: "string list list"
  objDicts :: "opaque dict list"
  roleDicts :: "addr dict list"

record HeapState =
  heap :: Heap
  resolvedRef :: ResolvedRef
  authSource :: "string option"

subsection \<open>The resolved configuration and the plugin descriptor\<close>

record Hooks =
  onInit :: "Hook list"
  onRequest :: "Hook list"
  onError :: "Hook list"
  onShutdown :: "Hook list"

record ResolvedPlugins =
  integrations :: "IntegrationProvider list"
  auth :: "AuthProvider option"
  permissions :: "Permission dict"
  roles :: "string list dict"
  actions :: "ActionDefinition dict"
  middleware :: "PipelineMiddleware list"
  routes :: "RouteHandler dict"
  hooks :: Hooks

text \<open>
  Every field of a plugin but its name is optional (\<^verbatim>\<open>field?: T\<close>); an absent field
  is \<open>None\<close>. The field names are those of the source, so the fields of the resolved
  configuration are written with their record name, \<open>ResolvedPlugins.auth\<close>.
\<close>

record Plugin =
  name :: string
  integrations :: "IntegrationProvider list option"
  auth :: "AuthProvider option"
  permissions :: "Permission dict option"
  roles :: "string list dict option"
  actions :: "ActionDefinition dict option"
  middleware :: "PipelineMiddleware list option"
  routes :: "RouteHandler dict option"
  onInit :: "Hook option"
  onRequest :: "Hook option"
  onError :: "Hook option"
  onShutdown :: "Hook option"

subsection \<open>Errors\<close>

text \<open>
  A JavaScript error object carries a name and a message. \<^verbatim>\<open>PluginConflictError\<close>
  builds its message from the four arguments of its constructor and stores nothing else.
\<close>

datatype jsError = JsError (errName: string) (message: string)

definition PluginConflictError :: "string \<Rightarrow> string \<Rightarrow> string \<Rightarrow> string \<Rightarrow> jsError" where
  \<open>PluginConflictError kind key pluginA pluginB =
     JsError ''PluginConflictError''
       (''Plugin conflict: '' @ kind @ '' "'' @ key @ ''" is defined by both "'' @ pluginA
          @ ''" and "'' @ pluginB @ ''". '' @
        ''Each '' @ kind @ '' must be provided by exactly one plugin.'')\<close>

text \<open>
  Calling \<^verbatim>\<open>includes\<close> on a value that has no such method throws a
  \<^verbatim>\<open>TypeError\<close>; the wording of its message is the engine's.
\<close>

definition TypeError :: jsError where
  "TypeError = JsError ''TypeError'' ''resolved.roles[role].includes is not a function''"

section \<open>The ownership tracer\<close>

datatype field = Permissions | Actions | Routes

fun getField :: "field \<Rightarrow> Plugin \<Rightarrow> opaque dict option" where
  "getField Permissions p = permissions p"
| "getField Actions p = actions p"
| "getField Routes p = routes p"

text \<open>
  \<^verbatim>\<open>findOwner\<close>: the loop leaves at the first plugin of the given name, and returns
  at the first plugin before it whose object \<^verbatim>\<open>p[field]\<close> is there and has the key
  (\<^verbatim>\<open>key in obj\<close>).
\<close>

fun findOwner :: "Plugin list \<Rightarrow> field \<Rightarrow> string \<Rightarrow> string \<Rightarrow> string" where
  "findOwner [] fld key currentName = ''engine config''"
| "findOwner (p # plugins) fld key currentName =
     (if name p = currentName then ''engine config''
      else (case getField fld p of
              None \<Rightarrow> findOwner plugins fld key currentName
            | Some obj \<Rightarrow>
                if hasProperty obj key then name p
                else findOwner plugins fld key currentName))"

section \<open>The merge engine\<close>

text \<open>
  The accumulator of \<^verbatim>\<open>resolvePlugins\<close> is the object \<^verbatim>\<open>resolved\<close> together
  with the local variable \<^verbatim>\<open>authSource\<close>.
\<close>

record MergeState =
  resolved :: ResolvedPlugins
  authSource :: "string option"

definition initState :: MergeState where
  "initState =
     \<lparr>resolved =
        \<lparr>ResolvedPlugins.integrations = [], ResolvedPlugins.auth = None,
         ResolvedPlugins.permissions = [], ResolvedPlugins.roles = [],
         ResolvedPlugins.actions = [], ResolvedPlugins.middleware = [],
         ResolvedPlugins.routes = [],
         hooks = \<lparr>Hooks.onInit = [], Hooks.onRequest = [], Hooks.onError = [],
                  Hooks.onShutdown = []\<rparr>\<rparr>,
      authSource = None\<rparr>"

text \<open>
  The three loops over \<^verbatim>\<open>Object.entries\<close> of the permissions, the actions and the
  routes are the same loop up to the kind in the message and the field handed to
  \<^verbatim>\<open>findOwner\<close>: a key that the accumulator already answers to throws, any other is
  assigned.
\<close>

fun mergeEntries ::
  "Plugin list \<Rightarrow> string \<Rightarrow> field \<Rightarrow> string \<Rightarrow> opaque dict \<Rightarrow> opaque dict
     \<Rightarrow> jsError + opaque dict" where
  "mergeEntries plugins kind fld pname acc [] = Inr acc"
| "mergeEntries plugins kind fld pname acc ((key, v) # entries) =
     (if hasProperty acc key
      then Inl (PluginConflictError kind key (findOwner plugins fld key pname) pname)
      else mergeEntries plugins kind fld pname (setProp key v acc) entries)"

text \<open>
  The inner loop over the permission slugs of one role. \<^verbatim>\<open>resolved.roles[role]\<close> is
  read again at every slug. When the accumulator has no own array under the role, the read
  gives the inherited property (or \<^verbatim>\<open>undefined\<close>), and the call of
  \<^verbatim>\<open>includes\<close> throws.
\<close>

fun pushPerms :: "string list dict \<Rightarrow> string \<Rightarrow> string list \<Rightarrow> jsError + string list dict" where
  "pushPerms rs role [] = Inr rs"
| "pushPerms rs role (perm # perms) =
     (case map_of rs role of
        None \<Rightarrow> Inl TypeError
      | Some xs \<Rightarrow>
          pushPerms (if perm \<in> set xs then rs else setProp role (xs @ [perm]) rs) role perms)"

fun mergeRoles :: "string list dict \<Rightarrow> string list dict \<Rightarrow> jsError + string list dict" where
  "mergeRoles rs [] = Inr rs"
| "mergeRoles rs ((role, perms) # entries) =
     (case pushPerms (if hasProperty rs role then rs else setProp role [] rs) role perms of
        Inl e \<Rightarrow> Inl e
      | Inr rs' \<Rightarrow> mergeRoles rs' entries)"

definition andThen :: "'e + 'a \<Rightarrow> ('a \<Rightarrow> 'e + 'b) \<Rightarrow> 'e + 'b" where
  "andThen m f = (case m of Inl e \<Rightarrow> Inl e | Inr x \<Rightarrow> f x)"

text \<open>The body of the loop over the plugins, one definition for each block of the body.\<close>

definition stepIntegrations :: "Plugin \<Rightarrow> ResolvedPlugins \<Rightarrow> ResolvedPlugins" where
  "stepIntegrations plugin r =
     (case integrations plugin of
        None \<Rightarrow> r
      | Some xs \<Rightarrow> r\<lparr>ResolvedPlugins.integrations := ResolvedPlugins.integrations r @ xs\<rparr>)"

definition stepAuth :: "Plugin \<Rightarrow> MergeState \<Rightarrow> jsError + MergeState" where
  "stepAuth plugin st =
     (case auth plugin of
        None \<Rightarrow> Inr st
      | Some a \<Rightarrow>
          if ResolvedPlugins.auth (resolved st) \<noteq> None
          then Inl (PluginConflictError ''auth'' ''auth''
                      (case authSource st of Some s \<Rightarrow> s | None \<Rightarrow> ''undefined'')
                      (name plugin))
          else Inr (st\<lparr>resolved := (resolved st)\<lparr>ResolvedPlugins.auth := Some a\<rparr>,
                       authSource := Some (name plugin)\<rparr>))"

definition stepPermissions :: "Plugin list \<Rightarrow> Plugin \<Rightarrow> ResolvedPlugins \<Rightarrow> jsError + ResolvedPlugins" where
  "stepPermissions plugins plugin r =
     (case permissions plugin of
        None \<Rightarrow> Inr r
      | Some obj \<Rightarrow>
          andThen (mergeEntries plugins ''permission'' Permissions (name plugin)
                     (ResolvedPlugins.permissions r) obj)
            (\<lambda>acc. Inr (r\<lparr>ResolvedPlugins.permissions := acc\<rparr>)))"

definition stepRoles :: "Plugin \<Rightarrow> ResolvedPlugins \<Rightarrow> jsError + ResolvedPlugins" where
  "stepRoles plugin r =
     (case roles plugin of
        None \<Rightarrow> Inr r
      | Some obj \<Rightarrow>
          andThen (mergeRoles (ResolvedPlugins.roles r) obj)
            (\<lambda>acc. Inr (r\<lparr>ResolvedPlugins.roles := acc\<rparr>)))"

definition stepActions :: "Plugin list \<Rightarrow> Plugin \<Rightarrow> ResolvedPlugins \<Rightarrow> jsError + ResolvedPlugins" where
  "stepActions plugins plugin r =
     (case actions plugin of
        None \<Rightarrow> Inr r
      | Some obj \<Rightarrow>
          andThen (mergeEntries plugins ''action'' Actions (name plugin)
                     (ResolvedPlugins.actions r) obj)
            (\<lambda>acc. Inr (r\<lparr>ResolvedPlugins.actions := acc\<rparr>)))"

definition stepMiddleware :: "Plugin \<Rightarrow> ResolvedPlugins \<Rightarrow> ResolvedPlugins" where
  "stepMiddleware plugin r =
     (case middleware plugin of
        None \<Rightarrow> r
      | Some xs \<Rightarrow> r\<lparr>ResolvedPlugins.middleware := ResolvedPlugins.middleware r @ xs\<rparr>)"

definition stepRoutes :: "Plugin list \<Rightarrow> Plugin \<Rightarrow> ResolvedPlugins \<Rightarrow> jsError + ResolvedPlugins" where
  "stepRoutes plugins plugin r =
     (case routes plugin of
        None \<Rightarrow> Inr r
      | Some obj \<Rightarrow>
          andThen (mergeEntries plugins ''route'' Routes (name plugin)
                     (ResolvedPlugins.routes r) obj)
            (\<lambda>acc. Inr (r\<lparr>ResolvedPlugins.routes := acc\<rparr>)))"

definition pushHook :: "Hook option \<Rightarrow> Hook list \<Rightarrow> Hook list" where
  "pushHook h hs = (case h of None \<Rightarrow> hs | Some f \<Rightarrow> hs @ [f])"

definition stepHooks :: "Plugin \<Rightarrow> ResolvedPlugins \<Rightarrow> ResolvedPlugins" where
  "stepHooks plugin r =
     r\<lparr>hooks :=
         \<lparr>Hooks.onInit = pushHook (onInit plugin) (Hooks.onInit (hooks r)),
          Hooks.onRequest = pushHook (onRequest plugin) (Hooks.onRequest (hooks r)),
          Hooks.onError = pushHook (onError plugin) (Hooks.onError (hooks r)),
          Hooks.onShutdown = pushHook (onShutdown plugin) (Hooks.onShutdown (hooks r))\<rparr>\<rparr>"

text \<open>The blocks after the auth block work on \<^verbatim>\<open>resolved\<close> alone.\<close>

definition stepRest :: "Plugin list \<Rightarrow> Plugin \<Rightarrow> ResolvedPlugins \<Rightarrow> jsError + ResolvedPlugins" where
  "stepRest plugins plugin r =
     andThen (stepPermissions plugins plugin r) (\<lambda>r1.
     andThen (stepRoles plugin r1) (\<lambda>r2.
     andThen (stepActions plugins plugin r2) (\<lambda>r3.
     andThen (stepRoutes plugins plugin (stepMiddleware plugin r3)) (\<lambda>r4.
     Inr (stepHooks plugin r4)))))"

definition resolveStep :: "Plugin list \<Rightarrow> MergeState \<Rightarrow> Plugin \<Rightarrow> jsError + MergeState" where
  "resolveStep plugins st plugin =
     andThen (stepAuth plugin (st\<lparr>resolved := stepIntegrations plugin (resolved st)\<rparr>)) (\<lambda>st1.
     andThen (stepRest plugins plugin (resolved st1)) (\<lambda>r.
     Inr (st1\<lparr>resolved := r\<rparr>)))"

fun resolveLoop :: "Plugin list \<Rightarrow> MergeState \<Rightarrow> Plugin list \<Rightarrow> jsError + MergeState" where
  "resolveLoop plugins st [] = Inr st"
| "resolveLoop plugins st (plugin # rest) =
     (case resolveStep plugins st plugin of
        Inl e \<Rightarrow> Inl e
      | Inr st' \<Rightarrow> resolveLoop plugins st' rest)"

definition resolvePlugins :: "Plugin list \<Rightarrow> jsError + ResolvedPlugins" where
  "resolvePlugins plugins =
     (case resolveLoop plugins initState plugins of
        Inl e \<Rightarrow> Inl e
      | Inr st \<Rightarrow> Inr (resolved st))"

text \<open>A plugin that has a name and nothing else.\<close>

definition plugin0 :: "string \<Rightarrow> Plugin" where
  "plugin0 n =
     \<lparr>name = n, integrations = None, auth = None, permissions = None, roles = None,
      actions = None, middleware = None, routes = None, onInit = None, onRequest = None,
      onError = None, onShutdown = None\<rparr>"

section \<open>The merge engine over the store\<close>

text \<open>
  The same program once more, with every array and dictionary behind a reference into the
  store. A function takes the store and returns it; a thrown error is \<open>Some e\<close> beside the
  store as it is at the throw.
\<close>

subsection \<open>Allocation and update\<close>

text \<open>
  An array literal \<^verbatim>\<open>[]\<close> or an object literal \<^verbatim>\<open>{}\<close> allocates a new cell at the end of
  the list for its type. \<^verbatim>\<open>push\<close> and the assignment \<^verbatim>\<open>obj[key] = v\<close> update the cell at an
  address in place.
\<close>

definition allocObjArray :: "Heap \<Rightarrow> addr \<times> Heap" where
  "allocObjArray h = (length (objArrays h), h\<lparr>objArrays := objArrays h @ [[]]\<rparr>)"

definition allocStrArray :: "Heap \<Rightarrow> addr \<times> Heap" where
  "allocStrArray h = (length (strArrays h), h\<lparr>strArrays := strArrays h @ [[]]\<rparr>)"

definition allocObjDict :: "Heap \<Rightarrow> addr \<times> Heap" where
  "allocObjDict h = (length (objDicts h), h\<lparr>objDicts := objDicts h @ [[]]\<rparr>)"

definition allocRoleDict :: "Heap \<Rightarrow> addr \<times> Heap" where
  "allocRoleDict h = (length (roleDicts h), h\<lparr>roleDicts := roleDicts h @ [[]]\<rparr>)"

definition pushObjArray :: "addr \<Rightarrow> opaque list \<Rightarrow> Heap \<Rightarrow> Heap" where
  "pushObjArray a xs h = h\<lparr>objArrays := (objArrays h)[a := objArrays h ! a @ xs]\<rparr>"

definition pushStrArray :: "addr \<Rightarrow> string \<Rightarrow> Heap \<Rightarrow> Heap" where
  "pushStrArray a x h = h\<lparr>strArrays := (strArrays h)[a := strArrays h ! a @ [x]]\<rparr>"

definition assignObjDict :: "addr \<Rightarrow> string \<Rightarrow> opaque \<Rightarrow> Heap \<Rightarrow> Heap" where
  "assignObjDict a key v h = h\<lparr>objDicts := (objDicts h)[a := setProp key v (objDicts h ! a)]\<rparr>"

definition assignRoleDict :: "addr \<Rightarrow> string \<Rightarrow> addr \<Rightarrow> Heap \<Rightarrow> Heap" where
  "assignRoleDict a role arr h =
     h\<lparr>roleDicts := (roleDicts h)[a := setProp role arr (roleDicts h ! a)]\<rparr>"

subsection \<open>The ownership tracer over the store\<close>

fun getFieldRef :: "field \<Rightarrow> PluginRef \<Rightarrow> addr option" where
  "getFieldRef Permissions d = PluginRef.permissions d"
| "getFieldRef Actions d = PluginRef.actions d"
| "getFieldRef Routes d = PluginRef.routes d"

fun findOwnerH :: "Heap \<Rightarrow> addr list \<Rightarrow> field \<Rightarrow> string \<Rightarrow> string \<Rightarrow> string" where
  "findOwnerH h [] fld key currentName = ''engine config''"
| "findOwnerH h (p # plugins) fld key currentName =
     (if PluginRef.name (descriptors h ! p) = currentName then ''engine config''
      else (case getFieldRef fld (descriptors h ! p) of
              None \<Rightarrow> findOwnerH h plugins fld key currentName
            | Some a \<Rightarrow>
                if hasProperty (objDicts h ! a) key then PluginRef.name (descriptors h ! p)
                else findOwnerH h plugins fld key currentName))"

subsection \<open>The loops over the entries\<close>

text \<open>
  \<^verbatim>\<open>Object.entries\<close> builds a new array of the pairs, so the loop runs over the entries
  as they are when it starts; the accumulator is read from the store at every pass.
\<close>

fun mergeEntriesH ::
  "addr list \<Rightarrow> string \<Rightarrow> field \<Rightarrow> string \<Rightarrow> addr \<Rightarrow> opaque dict \<Rightarrow> Heap
     \<Rightarrow> Heap \<times> jsError option" where
  "mergeEntriesH plugins kind fld pname acc [] h = (h, None)"
| "mergeEntriesH plugins kind fld pname acc ((key, v) # entries) h =
     (if hasProperty (objDicts h ! acc) key
      then (h, Some (PluginConflictError kind key (findOwnerH h plugins fld key pname) pname))
      else mergeEntriesH plugins kind fld pname acc entries (assignObjDict acc key v h))"

text \<open>
  \<^verbatim>\<open>for (const perm of perms)\<close> iterates over the array itself: every pass reads the
  length and the element at the index from the store, and \<^verbatim>\<open>resolved.roles[role]\<close> is
  looked up again. The loop ends in every store: a push goes to an array that does not
  have the slug, which then is not the array that is iterated over.
\<close>

function pushPermsH :: "addr \<Rightarrow> string \<Rightarrow> addr \<Rightarrow> nat \<Rightarrow> Heap \<Rightarrow> Heap \<times> jsError option" where
  "pushPermsH rolesAt role perms i h =
     (if i < length (strArrays h ! perms)
      then (case map_of (roleDicts h ! rolesAt) role of
              None \<Rightarrow> (h, Some TypeError)
            | Some target \<Rightarrow>
                if strArrays h ! perms ! i \<in> set (strArrays h ! target)
                then pushPermsH rolesAt role perms (Suc i) h
                else pushPermsH rolesAt role perms (Suc i)
                       (pushStrArray target (strArrays h ! perms ! i) h))
      else (h, None))"
  by pat_completeness auto
termination
proof (relation "measure (\<lambda>(rolesAt, role, perms, i, h). length (strArrays h ! perms) - i)")
  show "wf (measure (\<lambda>(rolesAt, role, perms, i, h). length (strArrays h ! perms) - i))"
    by simp
next
  fix rolesAt :: addr and role :: string and perms :: addr and i :: nat and h :: Heap and target
  assume "i < length (strArrays h ! perms)"
  then show "((rolesAt, role, perms, Suc i, h), (rolesAt, role, perms, i, h))
      \<in> measure (\<lambda>(rolesAt, role, perms, i, h). length (strArrays h ! perms) - i)"
    by simp
next
  fix rolesAt :: addr and role :: string and perms :: addr and i :: nat and h :: Heap and target
  assume i: "i < length (strArrays h ! perms)"
    and n: "strArrays h ! perms ! i \<notin> set (strArrays h ! target)"
  from i n have "target \<noteq> perms" by auto
  then have "strArrays (pushStrArray target (strArrays h ! perms ! i) h) ! perms = strArrays h ! perms"
    by (simp add: pushStrArray_def)
  with i show "((rolesAt, role, perms, Suc i, pushStrArray target (strArrays h ! perms ! i) h),
       (rolesAt, role, perms, i, h))
      \<in> measure (\<lambda>(rolesAt, role, perms, i, h). length (strArrays h ! perms) - i)"
    by simp
qed

declare pushPermsH.simps [simp del]

fun mergeRolesH :: "addr \<Rightarrow> addr dict \<Rightarrow> Heap \<Rightarrow> Heap \<times> jsError option" where
  "mergeRolesH rolesAt [] h = (h, None)"
| "mergeRolesH rolesAt ((role, perms) # entries) h =
     (case pushPermsH rolesAt role perms 0
             (if hasProperty (roleDicts h ! rolesAt) role then h
              else assignRoleDict rolesAt role (fst (allocStrArray h)) (snd (allocStrArray h))) of
        (h', Some e) \<Rightarrow> (h', Some e)
      | (h', None) \<Rightarrow> mergeRolesH rolesAt entries h')"

subsection \<open>The body of the loop over the plugins\<close>

text \<open>
  The literal that initialises \<^verbatim>\<open>resolved\<close> allocates its arrays and dictionaries in the
  order in which they are written.
\<close>

definition initStateH :: "Heap \<Rightarrow> HeapState" where
  "initStateH h0 =
     (let (integrationsAt, h1) = allocObjArray h0;
          (permissionsAt, h2) = allocObjDict h1;
          (rolesAt, h3) = allocRoleDict h2;
          (actionsAt, h4) = allocObjDict h3;
          (middlewareAt, h5) = allocObjArray h4;
          (routesAt, h6) = allocObjDict h5;
          (onInitAt, h7) = allocObjArray h6;
          (onRequestAt, h8) = allocObjArray h7;
          (onErrorAt, h9) = allocObjArray h8;
          (onShutdownAt, h10) = allocObjArray h9
      in \<lparr>heap = h10,
          resolvedRef =
            \<lparr>ResolvedRef.integrations = integrationsAt, ResolvedRef.auth = None,
             ResolvedRef.permissions = permissionsAt, ResolvedRef.roles = rolesAt,
             ResolvedRef.actions = actionsAt, ResolvedRef.middleware = middlewareAt,
             ResolvedRef.routes = routesAt,
             ResolvedRef.hooks =
               \<lparr>HooksRef.onInit = onInitAt, HooksRef.onRequest = onRequestAt,
                HooksRef.onError = onErrorAt, HooksRef.onShutdown = onShutdownAt\<rparr>\<rparr>,
          HeapState.authSource = None\<rparr>)"

definition thenH ::
  "HeapState \<times> jsError option \<Rightarrow> (HeapState \<Rightarrow> HeapState \<times> jsError option)
     \<Rightarrow> HeapState \<times> jsError option" where
  "thenH m f = (case m of (st, Some e) \<Rightarrow> (st, Some e) | (st, None) \<Rightarrow> f st)"

definition onHeap :: "(Heap \<Rightarrow> Heap \<times> jsError option) \<Rightarrow> HeapState \<Rightarrow> HeapState \<times> jsError option" where
  "onHeap f st = (case f (heap st) of (h, err) \<Rightarrow> (st\<lparr>heap := h\<rparr>, err))"

text \<open>
  \<^verbatim>\<open>target.push(...source)\<close> reads the source array and then appends its elements.
\<close>

definition pushFrom :: "addr \<Rightarrow> addr option \<Rightarrow> Heap \<Rightarrow> Heap" where
  "pushFrom target source h =
     (case source of None \<Rightarrow> h | Some a \<Rightarrow> pushObjArray target (objArrays h ! a) h)"

definition pushHookH :: "addr \<Rightarrow> Hook option \<Rightarrow> Heap \<Rightarrow> Heap" where
  "pushHookH target hook h = (case hook of None \<Rightarrow> h | Some f \<Rightarrow> pushObjArray target [f] h)"

definition stepAuthH :: "PluginRef \<Rightarrow> HeapState \<Rightarrow> HeapState \<times> jsError option" where
  "stepAuthH d st =
     (case PluginRef.auth d of
        None \<Rightarrow> (st, None)
      | Some a \<Rightarrow>
          if ResolvedRef.auth (resolvedRef st) \<noteq> None
          then (st, Some (PluginConflictError ''auth'' ''auth''
                  (case HeapState.authSource st of Some s \<Rightarrow> s | None \<Rightarrow> ''undefined'')
                  (PluginRef.name d)))
          else (st\<lparr>resolvedRef := (resolvedRef st)\<lparr>ResolvedRef.auth := Some a\<rparr>,
                   HeapState.authSource := Some (PluginRef.name d)\<rparr>, None))"

definition mergeFieldH ::
  "addr list \<Rightarrow> string \<Rightarrow> field \<Rightarrow> PluginRef \<Rightarrow> addr \<Rightarrow> Heap \<Rightarrow> Heap \<times> jsError option" where
  "mergeFieldH plugins kind fld d acc h =
     (case getFieldRef fld d of
        None \<Rightarrow> (h, None)
      | Some a \<Rightarrow> mergeEntriesH plugins kind fld (PluginRef.name d) acc (objDicts h ! a) h)"

definition stepRolesH :: "PluginRef \<Rightarrow> addr \<Rightarrow> Heap \<Rightarrow> Heap \<times> jsError option" where
  "stepRolesH d rolesAt h =
     (case PluginRef.roles d of
        None \<Rightarrow> (h, None)
      | Some a \<Rightarrow> mergeRolesH rolesAt (roleDicts h ! a) h)"

definition stepHooksH :: "PluginRef \<Rightarrow> HooksRef \<Rightarrow> Heap \<Rightarrow> Heap" where
  "stepHooksH d hs h =
     pushHookH (HooksRef.onShutdown hs) (PluginRef.onShutdown d)
       (pushHookH (HooksRef.onError hs) (PluginRef.onError d)
         (pushHookH (HooksRef.onRequest hs) (PluginRef.onRequest d)
           (pushHookH (HooksRef.onInit hs) (PluginRef.onInit d) h)))"

definition resolveStepH :: "addr list \<Rightarrow> HeapState \<Rightarrow> addr \<Rightarrow> HeapState \<times> jsError option" where
  "resolveStepH plugins st p =
     (let d = descriptors (heap st) ! p; r = resolvedRef st in
      thenH (stepAuthH d
               (st\<lparr>heap := pushFrom (ResolvedRef.integrations r) (PluginRef.integrations d) (heap st)\<rparr>))
        (\<lambda>st1.
      thenH (onHeap (mergeFieldH plugins ''permission'' Permissions d (ResolvedRef.permissions r)) st1)
        (\<lambda>st2.
      thenH (onHeap (stepRolesH d (ResolvedRef.roles r)) st2)
        (\<lambda>st3.
      thenH (onHeap (mergeFieldH plugins ''action'' Actions d (ResolvedRef.actions r)) st3)
        (\<lambda>st4.
      thenH (onHeap (mergeFieldH plugins ''route'' Routes d (ResolvedRef.routes r))
               (st4\<lparr>heap := pushFrom (ResolvedRef.middleware r) (PluginRef.middleware d) (heap st4)\<rparr>))
        (\<lambda>st5.
      (st5\<lparr>heap := stepHooksH d (ResolvedRef.hooks r) (heap st5)\<rparr>, None)))))))"

fun resolveLoopH :: "addr list \<Rightarrow> HeapState \<Rightarrow> addr list \<Rightarrow> HeapState \<times> jsError option" where
  "resolveLoopH plugins st [] = (st, None)"
| "resolveLoopH plugins st (p # rest) =
     (case resolveStepH plugins st p of
        (st', Some e) \<Rightarrow> (st', Some e)
      | (st', None) \<Rightarrow> resolveLoopH plugins st' rest)"

definition resolvePluginsH :: "Heap \<Rightarrow> addr list \<Rightarrow> Heap \<times> (jsError + ResolvedRef)" where
  "resolvePluginsH h plugins =
     (case resolveLoopH plugins (initStateH h) plugins of
        (st, Some e) \<Rightarrow> (heap st, Inl e)
      | (st, None) \<Rightarrow> (heap st, Inr (resolvedRef st)))"

section \<open>Vocabulary of the properties\<close>

subsection \<open>What a descriptor contributes\<close>

text \<open>
  The contributions of a descriptor with an absent field read as empty, and the descriptors
  of a list that supply auth.
\<close>

definition intgsOf :: "Plugin \<Rightarrow> IntegrationProvider list" where
  "intgsOf p = (case integrations p of None \<Rightarrow> [] | Some xs \<Rightarrow> xs)"

definition mwOf :: "Plugin \<Rightarrow> PipelineMiddleware list" where
  "mwOf p = (case middleware p of None \<Rightarrow> [] | Some xs \<Rightarrow> xs)"

definition entriesOf :: "field \<Rightarrow> Plugin \<Rightarrow> opaque dict" where
  "entriesOf fld p = (case getField fld p of None \<Rightarrow> [] | Some obj \<Rightarrow> obj)"

definition roleEntries :: "Plugin \<Rightarrow> string list dict" where
  "roleEntries p = (case roles p of None \<Rightarrow> [] | Some obj \<Rightarrow> obj)"

definition hookOf :: "Hook option \<Rightarrow> Hook list" where
  "hookOf h = (case h of None \<Rightarrow> [] | Some f \<Rightarrow> [f])"

definition authors :: "Plugin list \<Rightarrow> Plugin list" where
  "authors ps = filter (\<lambda>p. auth p \<noteq> None) ps"

text \<open>
  \<open>listsFor role entries\<close> is the concatenation of the slug lists that the entries give
  for the role, \<open>roleLists ps role\<close> that of all descriptors in their order, and
  \<open>roleNames ps\<close> are the roles that the descriptors name.
\<close>

definition listsFor :: "string \<Rightarrow> string list dict \<Rightarrow> string list" where
  "listsFor role entries = concat (map snd (filter (\<lambda>e. fst e = role) entries))"

definition roleLists :: "Plugin list \<Rightarrow> string \<Rightarrow> string list" where
  "roleLists ps role = concat (map (\<lambda>p. listsFor role (roleEntries p)) ps)"

definition roleNames :: "Plugin list \<Rightarrow> string list" where
  "roleNames ps = map fst (concat (map roleEntries ps))"

subsection \<open>Ordered union\<close>

text \<open>
  \<open>firstSeen xs\<close> keeps the first occurrence of every element of \<open>xs\<close>, in the order of
  \<open>xs\<close>: the union in first-seen order without duplicates. \<open>pushAll acc xs\<close> is what
  pushing the elements of \<open>xs\<close> that are not yet there, one after the other, makes of
  \<open>acc\<close>. \<open>slugsOf rs role\<close> are the slugs that a roles dictionary holds for a role, none
  when it has no entry, and \<open>resolvedRole ps role\<close> is the entry of the role after
  resolving \<open>ps\<close>.
\<close>

primrec firstSeen :: "'a list \<Rightarrow> 'a list" where
  "firstSeen [] = []"
| "firstSeen (x # xs) = x # filter (\<lambda>y. y \<noteq> x) (firstSeen xs)"

definition pushAll :: "'a list \<Rightarrow> 'a list \<Rightarrow> 'a list" where
  "pushAll acc xs = acc @ filter (\<lambda>x. x \<notin> set acc) (firstSeen xs)"

definition slugsOf :: "string list dict \<Rightarrow> string \<Rightarrow> string list" where
  "slugsOf rs role = (case map_of rs role of None \<Rightarrow> [] | Some xs \<Rightarrow> xs)"

definition resolvedRole :: "Plugin list \<Rightarrow> string \<Rightarrow> string list option" where
  "resolvedRole ps role =
     (case resolvePlugins ps of Inl e \<Rightarrow> None | Inr r \<Rightarrow> map_of (ResolvedPlugins.roles r) role)"

subsection \<open>When the merge succeeds\<close>

text \<open>
  \<open>freshKeys acc entries\<close>: the keys of the entries are pairwise different and the
  accumulator answers to none of them. \<open>rolesOk entries\<close>: no role that is given a slug
  names a property of \<^verbatim>\<open>Object.prototype\<close>. \<open>roleInv rs\<close>: no own key of the roles
  accumulator does. \<open>stepOk\<close> and \<open>loopOk\<close> put these together for one descriptor and
  for a list, and \<open>stepResult\<close> is the accumulator after a pass that did not throw.
\<close>

definition freshKeys :: "'v dict \<Rightarrow> 'v dict \<Rightarrow> bool" where
  "freshKeys acc entries =
     (distinct (map fst entries) \<and>
      (\<forall>k \<in> set (map fst entries). \<not> hasProperty acc k))"

definition roleInv :: "string list dict \<Rightarrow> bool" where
  "roleInv rs = (\<forall>k. hasOwn rs k \<longrightarrow> k \<notin> set objectPrototypeKeys)"

definition rolesOk :: "string list dict \<Rightarrow> bool" where
  "rolesOk entries = (\<forall>(role, perms) \<in> set entries. perms \<noteq> [] \<longrightarrow> role \<notin> set objectPrototypeKeys)"

definition stepOk :: "ResolvedPlugins \<Rightarrow> Plugin \<Rightarrow> bool" where
  "stepOk r p =
     ((auth p \<noteq> None \<longrightarrow> ResolvedPlugins.auth r = None) \<and>
      freshKeys (ResolvedPlugins.permissions r) (entriesOf Permissions p) \<and>
      rolesOk (roleEntries p) \<and>
      freshKeys (ResolvedPlugins.actions r) (entriesOf Actions p) \<and>
      freshKeys (ResolvedPlugins.routes r) (entriesOf Routes p))"

definition stepResult :: "MergeState \<Rightarrow> Plugin \<Rightarrow> string list dict \<Rightarrow> MergeState" where
  "stepResult st p rs' =
     \<lparr>resolved =
        \<lparr>ResolvedPlugins.integrations = ResolvedPlugins.integrations (resolved st) @ intgsOf p,
         ResolvedPlugins.auth =
           (case auth p of None \<Rightarrow> ResolvedPlugins.auth (resolved st) | Some a \<Rightarrow> Some a),
         ResolvedPlugins.permissions =
           ResolvedPlugins.permissions (resolved st) @ entriesOf Permissions p,
         ResolvedPlugins.roles = rs',
         ResolvedPlugins.actions = ResolvedPlugins.actions (resolved st) @ entriesOf Actions p,
         ResolvedPlugins.middleware = ResolvedPlugins.middleware (resolved st) @ mwOf p,
         ResolvedPlugins.routes = ResolvedPlugins.routes (resolved st) @ entriesOf Routes p,
         hooks =
           \<lparr>Hooks.onInit = Hooks.onInit (hooks (resolved st)) @ hookOf (onInit p),
            Hooks.onRequest = Hooks.onRequest (hooks (resolved st)) @ hookOf (onRequest p),
            Hooks.onError = Hooks.onError (hooks (resolved st)) @ hookOf (onError p),
            Hooks.onShutdown = Hooks.onShutdown (hooks (resolved st)) @ hookOf (onShutdown p)\<rparr>\<rparr>,
      authSource = (case auth p of None \<Rightarrow> authSource st | Some a \<Rightarrow> Some (name p))\<rparr>"

definition loopOk :: "ResolvedPlugins \<Rightarrow> Plugin list \<Rightarrow> bool" where
  "loopOk r ps =
     ((if ResolvedPlugins.auth r = None then length (authors ps) \<le> 1 else authors ps = []) \<and>
      freshKeys (ResolvedPlugins.permissions r) (concat (map (entriesOf Permissions) ps)) \<and>
      rolesOk (concat (map roleEntries ps)) \<and>
      freshKeys (ResolvedPlugins.actions r) (concat (map (entriesOf Actions) ps)) \<and>
      freshKeys (ResolvedPlugins.routes r) (concat (map (entriesOf Routes) ps)))"

subsection \<open>The first owner, in the words of the specification\<close>

text \<open>
  The scan of the descriptors before the first one of the current name, for the first one
  whose mapping has the key as an own property.
\<close>

definition containsKey :: "field \<Rightarrow> string \<Rightarrow> Plugin \<Rightarrow> bool" where
  "containsKey fld key p = (key \<in> set (map fst (entriesOf fld p)))"

definition firstOwner :: "Plugin list \<Rightarrow> field \<Rightarrow> string \<Rightarrow> string \<Rightarrow> string" where
  "firstOwner plugins fld key currentName =
     (case find (containsKey fld key) (takeWhile (\<lambda>p. name p \<noteq> currentName) plugins) of
        None \<Rightarrow> ''engine config''
      | Some p \<Rightarrow> name p)"

text \<open>The kind under which a conflict on a key of each of the three mappings is reported.\<close>

fun kindOf :: "field \<Rightarrow> string" where
  "kindOf Permissions = ''permission''"
| "kindOf Actions = ''action''"
| "kindOf Routes = ''route''"

subsection \<open>The store before and after\<close>

text \<open>
  \<open>unchanged h h'\<close>: the descriptors are the same, and every array and dictionary of
  \<open>h\<close> has the same contents in \<open>h'\<close>; \<open>h'\<close> may have more cells.
\<close>

definition unchanged :: "Heap \<Rightarrow> Heap \<Rightarrow> bool" where
  "unchanged h h' =
     (descriptors h' = descriptors h \<and>
      take (length (objArrays h)) (objArrays h') = objArrays h \<and>
      take (length (strArrays h)) (strArrays h') = strArrays h \<and>
      take (length (objDicts h)) (objDicts h') = objDicts h \<and>
      take (length (roleDicts h)) (roleDicts h') = roleDicts h)"

text \<open>
  A descriptor is well-formed in a store when the references in its fields are addresses
  of the store. \<open>absPlugin\<close> reads a descriptor from the store as a value,
  \<open>absResolved\<close> the resolved configuration, and \<open>inputPlugins\<close> the list of
  descriptors at the given addresses.
\<close>

definition inRange :: "addr option \<Rightarrow> 'a list \<Rightarrow> bool" where
  "inRange ref cells = (case ref of None \<Rightarrow> True | Some a \<Rightarrow> a < length cells)"

definition wfPluginRef :: "Heap \<Rightarrow> PluginRef \<Rightarrow> bool" where
  "wfPluginRef h d =
     (inRange (PluginRef.integrations d) (objArrays h) \<and>
      inRange (PluginRef.middleware d) (objArrays h) \<and>
      inRange (PluginRef.permissions d) (objDicts h) \<and>
      inRange (PluginRef.actions d) (objDicts h) \<and>
      inRange (PluginRef.routes d) (objDicts h) \<and>
      (case PluginRef.roles d of
         None \<Rightarrow> True
       | Some a \<Rightarrow>
           a < length (roleDicts h) \<and>
           (\<forall>x \<in> snd ` set (roleDicts h ! a). x < length (strArrays h))))"

definition wfInput :: "Heap \<Rightarrow> addr list \<Rightarrow> bool" where
  "wfInput h plugins =
     (\<forall>p \<in> set plugins. p < length (descriptors h) \<and> wfPluginRef h (descriptors h ! p))"

definition absRoleDict :: "Heap \<Rightarrow> addr dict \<Rightarrow> string list dict" where
  "absRoleDict h d = map (\<lambda>(role, a). (role, strArrays h ! a)) d"

definition absPlugin :: "Heap \<Rightarrow> PluginRef \<Rightarrow> Plugin" where
  "absPlugin h d =
     \<lparr>Plugin.name = PluginRef.name d,
      Plugin.integrations = map_option (\<lambda>a. objArrays h ! a) (PluginRef.integrations d),
      Plugin.auth = PluginRef.auth d,
      Plugin.permissions = map_option (\<lambda>a. objDicts h ! a) (PluginRef.permissions d),
      Plugin.roles = map_option (\<lambda>a. absRoleDict h (roleDicts h ! a)) (PluginRef.roles d),
      Plugin.actions = map_option (\<lambda>a. objDicts h ! a) (PluginRef.actions d),
      Plugin.middleware = map_option (\<lambda>a. objArrays h ! a) (PluginRef.middleware d),
      Plugin.routes = map_option (\<lambda>a. objDicts h ! a) (PluginRef.routes d),
      Plugin.onInit = PluginRef.onInit d, Plugin.onRequest = PluginRef.onRequest d,
      Plugin.onError = PluginRef.onError d, Plugin.onShutdown = PluginRef.onShutdown d\<rparr>"

definition absResolved :: "Heap \<Rightarrow> ResolvedRef \<Rightarrow> ResolvedPlugins" where
  "absResolved h r =
     \<lparr>ResolvedPlugins.integrations = objArrays h ! ResolvedRef.integrations r,
      ResolvedPlugins.auth = ResolvedRef.auth r,
      ResolvedPlugins.permissions = objDicts h ! ResolvedRef.permissions r,
      ResolvedPlugins.roles = absRoleDict h (roleDicts h ! ResolvedRef.roles r),
      ResolvedPlugins.actions = objDicts h ! ResolvedRef.actions r,
      ResolvedPlugins.middleware = objArrays h ! ResolvedRef.middleware r,
      ResolvedPlugins.routes = objDicts h ! ResolvedRef.routes r,
      ResolvedPlugins.hooks =
        \<lparr>Hooks.onInit = objArrays h ! HooksRef.onInit (ResolvedRef.hooks r),
         Hooks.onRequest = objArrays h ! HooksRef.onRequest (ResolvedRef.hooks r),
         Hooks.onError = objArrays h ! HooksRef.onError (ResolvedRef.hooks r),
         Hooks.onShutdown = objArrays h ! HooksRef.onShutdown (ResolvedRef.hooks r)\<rparr>\<rparr>"

definition absState :: "HeapState \<Rightarrow> MergeState" where
  "absState st =
     \<lparr>resolved = absResolved (heap st) (resolvedRef st),
      MergeState.authSource = HeapState.authSource st\<rparr>"

definition inputPlugins :: "Heap \<Rightarrow> addr list \<Rightarrow> Plugin list" where
  "inputPlugins h plugins = map (\<lambda>p. absPlugin h (descriptors h ! p)) plugins"

subsection \<open>Invariants of the merge over the store\<close>

text \<open>
  With \<open>h0\<close> the store at the call: \<open>freshRefs\<close> and \<open>layout\<close> say where the
  arrays and dictionaries of \<^verbatim>\<open>resolved\<close> are, all of them beyond the cells of
  \<open>h0\<close>; \<open>rolesInv\<close> and \<open>rolesSim\<close> say that the dictionary of roles holds
  addresses of arrays beyond those of \<open>h0\<close>, each at most once; \<open>sameOthers\<close> that
  nothing but arrays of strings and the contents of the role dictionaries changed.
  \<open>simRes\<close> relates a result over the store to a result over values.
\<close>

definition rolesInv :: "Heap \<Rightarrow> addr \<Rightarrow> Heap \<Rightarrow> bool" where
  "rolesInv h0 rolesAt h =
     (length (roleDicts h0) \<le> rolesAt \<and> rolesAt < length (roleDicts h) \<and>
      (\<forall>a \<in> snd ` set (roleDicts h ! rolesAt). length (strArrays h0) \<le> a))"

definition freshRefs :: "Heap \<Rightarrow> ResolvedRef \<Rightarrow> bool" where
  "freshRefs h0 r =
     (length (objArrays h0) \<le> ResolvedRef.integrations r \<and>
      length (objArrays h0) \<le> ResolvedRef.middleware r \<and>
      length (objArrays h0) \<le> HooksRef.onInit (ResolvedRef.hooks r) \<and>
      length (objArrays h0) \<le> HooksRef.onRequest (ResolvedRef.hooks r) \<and>
      length (objArrays h0) \<le> HooksRef.onError (ResolvedRef.hooks r) \<and>
      length (objArrays h0) \<le> HooksRef.onShutdown (ResolvedRef.hooks r) \<and>
      length (objDicts h0) \<le> ResolvedRef.permissions r \<and>
      length (objDicts h0) \<le> ResolvedRef.actions r \<and>
      length (objDicts h0) \<le> ResolvedRef.routes r)"

definition heapInv :: "Heap \<Rightarrow> HeapState \<Rightarrow> bool" where
  "heapInv h0 st =
     (unchanged h0 (heap st) \<and> freshRefs h0 (resolvedRef st) \<and>
      rolesInv h0 (ResolvedRef.roles (resolvedRef st)) (heap st))"

definition layout :: "Heap \<Rightarrow> ResolvedRef \<Rightarrow> bool" where
  "layout h0 r =
     (ResolvedRef.integrations r = length (objArrays h0) \<and>
      ResolvedRef.middleware r = length (objArrays h0) + 1 \<and>
      HooksRef.onInit (ResolvedRef.hooks r) = length (objArrays h0) + 2 \<and>
      HooksRef.onRequest (ResolvedRef.hooks r) = length (objArrays h0) + 3 \<and>
      HooksRef.onError (ResolvedRef.hooks r) = length (objArrays h0) + 4 \<and>
      HooksRef.onShutdown (ResolvedRef.hooks r) = length (objArrays h0) + 5 \<and>
      ResolvedRef.permissions r = length (objDicts h0) \<and>
      ResolvedRef.actions r = length (objDicts h0) + 1 \<and>
      ResolvedRef.routes r = length (objDicts h0) + 2 \<and>
      ResolvedRef.roles r = length (roleDicts h0))"

definition simInv :: "Heap \<Rightarrow> Heap \<Rightarrow> bool" where
  "simInv h0 h =
     (unchanged h0 h \<and>
      length (objArrays h) = length (objArrays h0) + 6 \<and>
      length (objDicts h) = length (objDicts h0) + 3 \<and>
      length (roleDicts h) = length (roleDicts h0) + 1 \<and>
      distinct (map snd (roleDicts h ! length (roleDicts h0))) \<and>
      (\<forall>a \<in> snd ` set (roleDicts h ! length (roleDicts h0)).
         length (strArrays h0) \<le> a \<and> a < length (strArrays h)))"

definition rolesSim :: "Heap \<Rightarrow> Heap \<Rightarrow> bool" where
  "rolesSim h0 h =
     (unchanged h0 h \<and> length (roleDicts h0) < length (roleDicts h) \<and>
      distinct (map snd (roleDicts h ! length (roleDicts h0))) \<and>
      (\<forall>a \<in> snd ` set (roleDicts h ! length (roleDicts h0)).
         length (strArrays h0) \<le> a \<and> a < length (strArrays h)))"

definition sameOthers :: "Heap \<Rightarrow> Heap \<Rightarrow> bool" where
  "sameOthers h h' =
     (objArrays h' = objArrays h \<and> objDicts h' = objDicts h \<and>
      descriptors h' = descriptors h \<and> length (roleDicts h') = length (roleDicts h))"

definition good :: "Heap \<Rightarrow> HeapState \<Rightarrow> bool" where
  "good h0 st = (simInv h0 (heap st) \<and> layout h0 (resolvedRef st))"

definition simRes :: "Heap \<Rightarrow> HeapState \<times> jsError option \<Rightarrow> jsError + MergeState \<Rightarrow> bool" where
  "simRes h0 res pure =
     (case res of
        (st', Some e) \<Rightarrow> pure = Inl e
      | (st', None) \<Rightarrow> pure = Inr (absState st') \<and> good h0 st')"

definition liftR ::
  "(ResolvedPlugins \<Rightarrow> jsError + ResolvedPlugins) \<Rightarrow> MergeState \<Rightarrow> jsError + MergeState" where
  "liftR g ms = andThen (g (resolved ms)) (\<lambda>r. Inr (ms\<lparr>resolved := r\<rparr>))"

subsection \<open>Examples\<close>

definition exA :: Plugin where
  "exA = (plugin0 ''A'')\<lparr>auth := Some (Opaque 1), permissions := Some [(''p1'', Opaque 2)]\<rparr>"

definition exB :: Plugin where
  "exB = (plugin0 ''B'')\<lparr>permissions := Some [(''p1'', Opaque 3)]\<rparr>"

definition exC :: Plugin where
  "exC = (plugin0 ''C'')\<lparr>auth := Some (Opaque 4)\<rparr>"

definition exN :: Plugin where
  "exN = (plugin0 ''N'')\<lparr>integrations := Some [Opaque 5]\<rparr>"

definition exN2 :: Plugin where
  "exN2 = (plugin0 ''N'')\<lparr>permissions := Some [(''p1'', Opaque 6)]\<rparr>"

definition exD :: Plugin where
  "exD = (plugin0 ''D'')\<lparr>permissions := Some [(''p0'', Opaque 7), (''p1'', Opaque 8)]\<rparr>"

definition exEditorA :: Plugin where
  "exEditorA = (plugin0 ''A'')\<lparr>roles := Some [(''editor'', [''x'', ''y''])]\<rparr>"

definition exEditorB :: Plugin where
  "exEditorB = (plugin0 ''B'')\<lparr>roles := Some [(''editor'', [''y'', ''z''])]\<rparr>"

definition exTwice :: Plugin where
  "exTwice = (plugin0 ''T'')\<lparr>roles := Some [(''editor'', [''y'', ''x'', ''x''])]\<rparr>"

definition exRoleX :: Plugin where
  "exRoleX = (plugin0 ''A'')\<lparr>roles := Some [(''editor'', [''x''])], integrations := Some [Opaque 1],
      permissions := Some [(''p1'', Opaque 2)]\<rparr>"

definition exRoleY :: Plugin where
  "exRoleY = (plugin0 ''B'')\<lparr>roles := Some [(''editor'', [''y''])], integrations := Some [Opaque 3],
      permissions := Some [(''p2'', Opaque 4)]\<rparr>"

definition exHeap :: Heap where
  "exHeap =
     \<lparr>descriptors =
        [\<lparr>PluginRef.name = ''A'', PluginRef.integrations = Some 0, PluginRef.auth = Some (Opaque 1),
          PluginRef.permissions = Some 0, PluginRef.roles = Some 0, PluginRef.actions = None,
          PluginRef.middleware = None, PluginRef.routes = None, PluginRef.onInit = Some (Opaque 7),
          PluginRef.onRequest = None, PluginRef.onError = None, PluginRef.onShutdown = None\<rparr>,
         \<lparr>PluginRef.name = ''B'', PluginRef.integrations = Some 0, PluginRef.auth = None,
          PluginRef.permissions = Some 1, PluginRef.roles = Some 1, PluginRef.actions = None,
          PluginRef.middleware = None, PluginRef.routes = None, PluginRef.onInit = None,
          PluginRef.onRequest = None, PluginRef.onError = None, PluginRef.onShutdown = None\<rparr>],
      objArrays = [[Opaque 5]],
      strArrays = [[''x'', ''y''], [''y'', ''z'']],
      objDicts = [[(''p1'', Opaque 2)], [(''p2'', Opaque 3)]],
      roleDicts = [[(''editor'', 0)], [(''editor'', 1)]]\<rparr>"

section \<open>Lemmas\<close>

subsection \<open>Dictionaries\<close>

lemma hasOwn_iff: "hasOwn obj k = (k \<in> fst ` set obj)"
  by (simp add: hasOwn_def map_of_eq_None_iff)

lemma setProp_fresh: "\<not> hasOwn obj k \<Longrightarrow> setProp k v obj = obj @ [(k, v)]"
  by (induction obj) (auto simp: hasOwn_iff)

lemma map_of_setProp: "map_of (setProp k v obj) = (map_of obj)(k \<mapsto> v)"
  by (induction obj) (auto simp: fun_eq_iff)

lemma keys_setProp: "fst ` set (setProp k v obj) = insert k (fst ` set obj)"
proof -
  have "dom (map_of (setProp k v obj)) = insert k (dom (map_of obj))"
    by (simp add: map_of_setProp)
  then show ?thesis by (simp add: dom_map_of_conv_image_fst)
qed

lemma hasOwn_setProp: "hasOwn (setProp k v obj) k' = (k' = k \<or> hasOwn obj k')"
  by (simp add: hasOwn_def map_of_setProp)

lemma hasProperty_append:
  "hasProperty (acc @ es) k = (hasProperty acc k \<or> k \<in> fst ` set es)"
  by (auto simp: hasProperty_def hasOwn_iff)

lemma mergeEntries_Inr_iff:
  "mergeEntries plugins kind fld pn acc es = Inr acc' \<longleftrightarrow> freshKeys acc es \<and> acc' = acc @ es"
proof (induction es arbitrary: acc)
  case Nil
  show ?case by (auto simp: freshKeys_def)
next
  case (Cons e es)
  obtain k v where e: "e = (k, v)" by (cases e)
  show ?case
  proof (cases "hasProperty acc k")
    case True
    then show ?thesis by (simp add: e freshKeys_def)
  next
    case False
    then have "setProp k v acc = acc @ [(k, v)]"
      by (simp add: setProp_fresh hasProperty_def)
    with False Cons.IH [of "acc @ [(k, v)]"] show ?thesis
      by (auto simp: e freshKeys_def hasProperty_append)
  qed
qed

lemma freshKeys_append:
  "freshKeys acc (es1 @ es2) \<longleftrightarrow> freshKeys acc es1 \<and> freshKeys (acc @ es1) es2"
  unfolding freshKeys_def hasProperty_append
  by (simp only: map_append distinct_append set_map set_append image_Un) blast

lemma freshKeys_Nil [simp]: "freshKeys acc []"
  by (simp add: freshKeys_def)

lemma mergeEntries_Inl_first:
  "mergeEntries plugins kind fld pn acc es = Inl e \<Longrightarrow>
     \<exists>es1 k v es2. es = es1 @ (k, v) # es2 \<and> freshKeys acc es1 \<and> hasProperty (acc @ es1) k \<and>
        e = PluginConflictError kind k (findOwner plugins fld k pn) pn"
proof (induction es arbitrary: acc)
  case Nil
  then show ?case by simp
next
  case (Cons x es)
  obtain k v where x: "x = (k, v)" by (cases x)
  show ?case
  proof (cases "hasProperty acc k")
    case True
    with Cons.prems have "e = PluginConflictError kind k (findOwner plugins fld k pn) pn"
      by (simp add: x)
    with True have "x # es = [] @ (k, v) # es \<and> freshKeys acc [] \<and> hasProperty (acc @ []) k \<and>
        e = PluginConflictError kind k (findOwner plugins fld k pn) pn"
      by (simp add: x)
    then show ?thesis by blast
  next
    case False
    then have s: "setProp k v acc = acc @ [(k, v)]"
      by (simp add: setProp_fresh hasProperty_def)
    with False Cons.prems have "mergeEntries plugins kind fld pn (acc @ [(k, v)]) es = Inl e"
      by (simp add: x)
    from Cons.IH [OF this] obtain es1 k' v' es2 where
      es: "es = es1 @ (k', v') # es2" and f: "freshKeys (acc @ [(k, v)]) es1"
      and h: "hasProperty ((acc @ [(k, v)]) @ es1) k'"
      and e: "e = PluginConflictError kind k' (findOwner plugins fld k' pn) pn"
      by blast
    from False have "freshKeys acc [(k, v)]" by (simp add: freshKeys_def)
    with f have "freshKeys acc ([(k, v)] @ es1)" by (simp only: freshKeys_append)
    with es h e have "x # es = ((k, v) # es1) @ (k', v') # es2 \<and> freshKeys acc ((k, v) # es1) \<and>
        hasProperty (acc @ (k, v) # es1) k' \<and>
        e = PluginConflictError kind k' (findOwner plugins fld k' pn) pn"
      by (simp add: x)
    then show ?thesis by blast
  qed
qed

subsection \<open>Ordered union\<close>

lemma set_firstSeen [simp]: "set (firstSeen xs) = set xs"
  by (induction xs) auto

lemma distinct_firstSeen [simp]: "distinct (firstSeen xs)"
  by (induction xs) auto

lemma pushAll_Nil [simp]: "pushAll acc [] = acc"
  by (simp add: pushAll_def)

lemma pushAll_Cons:
  "pushAll acc (x # xs) = pushAll (if x \<in> set acc then acc else acc @ [x]) xs"
  by (auto simp: pushAll_def intro: filter_cong)

lemma pushAll_append: "pushAll acc (xs @ ys) = pushAll (pushAll acc xs) ys"
  by (induction xs arbitrary: acc) (simp_all add: pushAll_Cons)

lemma pushAll_empty_acc: "pushAll [] xs = firstSeen xs"
  by (simp add: pushAll_def)

lemma set_pushAll [simp]: "set (pushAll acc xs) = set acc \<union> set xs"
  by (auto simp: pushAll_def)

lemma distinct_pushAll: "distinct acc \<Longrightarrow> distinct (pushAll acc xs)"
  by (auto simp: pushAll_def)

lemma setProp_same: "map_of rs k = Some v \<Longrightarrow> setProp k v rs = rs"
  by (induction rs) (auto split: if_splits)

lemma setProp_twice: "setProp k v (setProp k w rs) = setProp k v rs"
  by (induction rs) auto

lemma pushPerms_own:
  "map_of rs role = Some xs \<Longrightarrow>
     pushPerms rs role perms = Inr (setProp role (pushAll xs perms) rs)"
proof (induction perms arbitrary: rs xs)
  case Nil
  then show ?case by (simp add: setProp_same)
next
  case (Cons p perms)
  show ?case
  proof (cases "p \<in> set xs")
    case True
    with Cons show ?thesis by (simp add: pushAll_Cons)
  next
    case False
    have m: "map_of (setProp role (xs @ [p]) rs) role = Some (xs @ [p])"
      by (simp add: map_of_setProp)
    show ?thesis using False Cons.prems Cons.IH [OF m]
      by (simp add: pushAll_Cons setProp_twice)
  qed
qed

lemma pushPerms_none:
  "map_of rs role = None \<Longrightarrow>
     pushPerms rs role perms = (if perms = [] then Inr rs else Inl TypeError)"
  by (cases perms) auto

subsection \<open>Merging roles\<close>

lemma roleInv_Nil [simp]: "roleInv []"
  by (simp add: roleInv_def hasOwn_def)

lemma slugsOf_setProp:
  "slugsOf (setProp k v rs) role = (if role = k then v else slugsOf rs role)"
  by (simp add: slugsOf_def map_of_setProp)

lemma mergeRoles_step:
  assumes "roleInv rs"
  shows "pushPerms (if hasProperty rs role then rs else setProp role [] rs) role perms =
     (if role \<in> set objectPrototypeKeys
      then (if perms = [] then Inr rs else Inl TypeError)
      else Inr (setProp role (pushAll (slugsOf rs role) perms) rs))"
proof (cases "role \<in> set objectPrototypeKeys")
  case True
  with assms have "map_of rs role = None"
    by (auto simp: roleInv_def hasOwn_def)
  with True show ?thesis
    by (simp add: hasProperty_def pushPerms_none)
next
  case False
  show ?thesis
  proof (cases "map_of rs role")
    case None
    have "map_of (setProp role [] rs) role = Some []"
      by (simp add: map_of_setProp)
    from pushPerms_own [OF this, of perms] None False show ?thesis
      by (simp add: hasProperty_def hasOwn_def slugsOf_def setProp_twice)
  next
    case (Some xs)
    from pushPerms_own [OF Some, of perms] Some False show ?thesis
      by (simp add: hasProperty_def hasOwn_def slugsOf_def)
  qed
qed

lemma roleInv_setProp:
  "roleInv rs \<Longrightarrow> k \<notin> set objectPrototypeKeys \<Longrightarrow> roleInv (setProp k v rs)"
  by (auto simp: roleInv_def hasOwn_setProp)

lemma rolesOk_Cons:
  "rolesOk ((role, perms) # es) = ((perms \<noteq> [] \<longrightarrow> role \<notin> set objectPrototypeKeys) \<and> rolesOk es)"
  by (simp add: rolesOk_def)

lemma rolesOk_append [simp]: "rolesOk (es1 @ es2) = (rolesOk es1 \<and> rolesOk es2)"
  by (auto simp: rolesOk_def)

lemma rolesOk_Nil [simp]: "rolesOk []"
  by (simp add: rolesOk_def)

lemma listsFor_Nil [simp]: "listsFor role [] = []"
  by (simp add: listsFor_def)

lemma listsFor_Cons:
  "listsFor role ((k, perms) # es) = (if k = role then perms @ listsFor role es else listsFor role es)"
  by (simp add: listsFor_def)

lemma listsFor_append [simp]: "listsFor role (es1 @ es2) = listsFor role es1 @ listsFor role es2"
  by (simp add: listsFor_def)

lemma mergeRoles_success_iff:
  "roleInv rs \<Longrightarrow> (\<exists>rs'. mergeRoles rs es = Inr rs') = rolesOk es"
proof (induction es arbitrary: rs)
  case Nil
  then show ?case by simp
next
  case (Cons e es)
  obtain role perms where e: "e = (role, perms)" by (cases e)
  show ?case
  proof (cases "role \<in> set objectPrototypeKeys")
    case True
    with Cons show ?thesis
      by (simp add: e mergeRoles_step rolesOk_Cons)
  next
    case False
    with Cons.prems have "roleInv (setProp role (pushAll (slugsOf rs role) perms) rs)"
      by (simp add: roleInv_setProp)
    from Cons.IH [OF this] False Cons.prems show ?thesis
      by (simp add: e mergeRoles_step rolesOk_Cons)
  qed
qed

lemma mergeRoles_result:
  "roleInv rs \<Longrightarrow> mergeRoles rs es = Inr rs' \<Longrightarrow>
     roleInv rs' \<and>
     slugsOf rs' role = pushAll (slugsOf rs role) (listsFor role es) \<and>
     hasOwn rs' role = (hasOwn rs role \<or> (role \<in> fst ` set es \<and> role \<notin> set objectPrototypeKeys))"
proof (induction es arbitrary: rs)
  case Nil
  then show ?case by simp
next
  case (Cons e es)
  obtain k perms where e: "e = (k, perms)" by (cases e)
  show ?case
  proof (cases "k \<in> set objectPrototypeKeys")
    case True
    with Cons.prems have p: "perms = []" and m: "mergeRoles rs es = Inr rs'"
      by (auto simp: e mergeRoles_step split: if_splits)
    from Cons.IH [OF Cons.prems(1) m] True p show ?thesis
      by (auto simp: e listsFor_Cons)
  next
    case False
    let ?rs1 = "setProp k (pushAll (slugsOf rs k) perms) rs"
    from False Cons.prems have inv: "roleInv ?rs1" and m: "mergeRoles ?rs1 es = Inr rs'"
      by (simp_all add: roleInv_setProp e mergeRoles_step)
    from Cons.IH [OF inv m] False show ?thesis
      by (auto simp: e listsFor_Cons slugsOf_setProp hasOwn_setProp pushAll_append)
  qed
qed

lemma mergeRoles_Inl: "mergeRoles rs es = Inl e \<Longrightarrow> e = TypeError"
proof (induction es arbitrary: rs)
  case Nil
  then show ?case by simp
next
  case (Cons x es)
  obtain k perms where x: "x = (k, perms)" by (cases x)
  have pp: "pushPerms rs0 k ps = Inl e \<Longrightarrow> e = TypeError" for rs0 ps
    by (induction ps arbitrary: rs0) (auto split: option.splits)
  from Cons show ?case
    by (auto simp: x split: sum.splits dest: pp)
qed

subsection \<open>The blocks of the loop body\<close>

lemma andThen_Inr_iff: "andThen m f = Inr y \<longleftrightarrow> (\<exists>x. m = Inr x \<and> f x = Inr y)"
  by (cases m) (simp_all add: andThen_def)

lemma andThen_Inl_iff: "andThen m f = Inl e \<longleftrightarrow> m = Inl e \<or> (\<exists>x. m = Inr x \<and> f x = Inl e)"
  by (cases m) (simp_all add: andThen_def)

lemma stepIntegrations_eq:
  "stepIntegrations p r = r\<lparr>ResolvedPlugins.integrations := ResolvedPlugins.integrations r @ intgsOf p\<rparr>"
  by (simp add: stepIntegrations_def intgsOf_def split: option.splits)

lemma stepMiddleware_eq:
  "stepMiddleware p r = r\<lparr>ResolvedPlugins.middleware := ResolvedPlugins.middleware r @ mwOf p\<rparr>"
  by (simp add: stepMiddleware_def mwOf_def split: option.splits)

lemma pushHook_eq: "pushHook h hs = hs @ hookOf h"
  by (simp add: pushHook_def hookOf_def split: option.splits)

lemma stepPermissions_Inr_iff:
  "stepPermissions plugins p r = Inr r' \<longleftrightarrow>
     freshKeys (ResolvedPlugins.permissions r) (entriesOf Permissions p) \<and>
     r' = r\<lparr>ResolvedPlugins.permissions := ResolvedPlugins.permissions r @ entriesOf Permissions p\<rparr>"
  by (auto simp: stepPermissions_def entriesOf_def andThen_Inr_iff mergeEntries_Inr_iff
      split: option.splits)

lemma stepActions_Inr_iff:
  "stepActions plugins p r = Inr r' \<longleftrightarrow>
     freshKeys (ResolvedPlugins.actions r) (entriesOf Actions p) \<and>
     r' = r\<lparr>ResolvedPlugins.actions := ResolvedPlugins.actions r @ entriesOf Actions p\<rparr>"
  by (auto simp: stepActions_def entriesOf_def andThen_Inr_iff mergeEntries_Inr_iff
      split: option.splits)

lemma stepRoutes_Inr_iff:
  "stepRoutes plugins p r = Inr r' \<longleftrightarrow>
     freshKeys (ResolvedPlugins.routes r) (entriesOf Routes p) \<and>
     r' = r\<lparr>ResolvedPlugins.routes := ResolvedPlugins.routes r @ entriesOf Routes p\<rparr>"
  by (auto simp: stepRoutes_def entriesOf_def andThen_Inr_iff mergeEntries_Inr_iff
      split: option.splits)

lemma stepRoles_Inr_iff:
  "stepRoles p r = Inr r' \<longleftrightarrow>
     (\<exists>rs'. mergeRoles (ResolvedPlugins.roles r) (roleEntries p) = Inr rs' \<and>
            r' = r\<lparr>ResolvedPlugins.roles := rs'\<rparr>)"
  by (auto simp: stepRoles_def roleEntries_def andThen_Inr_iff split: option.splits)

lemma stepAuth_Inr_iff:
  "stepAuth p st = Inr st' \<longleftrightarrow>
     (case auth p of
        None \<Rightarrow> st' = st
      | Some a \<Rightarrow> ResolvedPlugins.auth (resolved st) = None \<and>
          st' = st\<lparr>resolved := (resolved st)\<lparr>ResolvedPlugins.auth := Some a\<rparr>,
                   authSource := Some (name p)\<rparr>)"
  by (auto simp: stepAuth_def split: option.splits)

text \<open>What one successful pass of the loop body does to the accumulator.\<close>

lemma stepRest_Inr_iff:
  "stepRest plugins p r = Inr r' \<longleftrightarrow>
     freshKeys (ResolvedPlugins.permissions r) (entriesOf Permissions p) \<and>
     freshKeys (ResolvedPlugins.actions r) (entriesOf Actions p) \<and>
     freshKeys (ResolvedPlugins.routes r) (entriesOf Routes p) \<and>
     (\<exists>rs'. mergeRoles (ResolvedPlugins.roles r) (roleEntries p) = Inr rs' \<and>
        r' = r\<lparr>ResolvedPlugins.permissions := ResolvedPlugins.permissions r @ entriesOf Permissions p,
                ResolvedPlugins.roles := rs',
                ResolvedPlugins.actions := ResolvedPlugins.actions r @ entriesOf Actions p,
                ResolvedPlugins.middleware := ResolvedPlugins.middleware r @ mwOf p,
                ResolvedPlugins.routes := ResolvedPlugins.routes r @ entriesOf Routes p,
                hooks :=
                  \<lparr>Hooks.onInit = Hooks.onInit (hooks r) @ hookOf (onInit p),
                   Hooks.onRequest = Hooks.onRequest (hooks r) @ hookOf (onRequest p),
                   Hooks.onError = Hooks.onError (hooks r) @ hookOf (onError p),
                   Hooks.onShutdown = Hooks.onShutdown (hooks r) @ hookOf (onShutdown p)\<rparr>\<rparr>)"
  unfolding stepRest_def andThen_Inr_iff stepPermissions_Inr_iff stepRoles_Inr_iff
    stepActions_Inr_iff stepRoutes_Inr_iff stepMiddleware_eq stepHooks_def pushHook_eq
  by auto

lemma resolveStep_Inr_iff:
  "resolveStep plugins st p = Inr st' \<longleftrightarrow>
     (auth p \<noteq> None \<longrightarrow> ResolvedPlugins.auth (resolved st) = None) \<and>
     freshKeys (ResolvedPlugins.permissions (resolved st)) (entriesOf Permissions p) \<and>
     freshKeys (ResolvedPlugins.actions (resolved st)) (entriesOf Actions p) \<and>
     freshKeys (ResolvedPlugins.routes (resolved st)) (entriesOf Routes p) \<and>
     (\<exists>rs'. mergeRoles (ResolvedPlugins.roles (resolved st)) (roleEntries p) = Inr rs' \<and>
            st' = stepResult st p rs')"
  unfolding resolveStep_def andThen_Inr_iff stepAuth_Inr_iff stepRest_Inr_iff
    stepIntegrations_eq stepResult_def
  by (cases "auth p") auto

lemma resolveStep_success_iff:
  "roleInv (ResolvedPlugins.roles (resolved st)) \<Longrightarrow>
     (\<exists>st'. resolveStep plugins st p = Inr st') = stepOk (resolved st) p"
  unfolding resolveStep_Inr_iff stepOk_def
  using mergeRoles_success_iff [of "ResolvedPlugins.roles (resolved st)" "roleEntries p"]
  by auto

subsection \<open>The loop over the plugins\<close>

lemma mergeRoles_append:
  "mergeRoles rs (es1 @ es2) =
     (case mergeRoles rs es1 of Inl e \<Rightarrow> Inl e | Inr rs1 \<Rightarrow> mergeRoles rs1 es2)"
proof (induction es1 arbitrary: rs)
  case Nil
  show ?case by simp
next
  case (Cons e es1)
  obtain k perms where e: "e = (k, perms)" by (cases e)
  show ?case by (simp add: e Cons.IH split: sum.splits)
qed

lemma resolveLoop_Cons_Inr_iff:
  "resolveLoop plugins st (p # ps) = Inr st' \<longleftrightarrow>
     (\<exists>st1. resolveStep plugins st p = Inr st1 \<and> resolveLoop plugins st1 ps = Inr st')"
  by (simp split: sum.splits)

lemma resolveLoop_lists:
  "resolveLoop plugins st ps = Inr st' \<Longrightarrow>
     ResolvedPlugins.integrations (resolved st') =
       ResolvedPlugins.integrations (resolved st) @ concat (map intgsOf ps) \<and>
     ResolvedPlugins.middleware (resolved st') =
       ResolvedPlugins.middleware (resolved st) @ concat (map mwOf ps) \<and>
     Hooks.onInit (hooks (resolved st')) =
       Hooks.onInit (hooks (resolved st)) @ concat (map (\<lambda>p. hookOf (onInit p)) ps) \<and>
     Hooks.onRequest (hooks (resolved st')) =
       Hooks.onRequest (hooks (resolved st)) @ concat (map (\<lambda>p. hookOf (onRequest p)) ps) \<and>
     Hooks.onError (hooks (resolved st')) =
       Hooks.onError (hooks (resolved st)) @ concat (map (\<lambda>p. hookOf (onError p)) ps) \<and>
     Hooks.onShutdown (hooks (resolved st')) =
       Hooks.onShutdown (hooks (resolved st)) @ concat (map (\<lambda>p. hookOf (onShutdown p)) ps)"
proof (induction ps arbitrary: st)
  case Nil
  then show ?case by simp
next
  case (Cons p ps)
  then obtain st1 where s: "resolveStep plugins st p = Inr st1"
    and l: "resolveLoop plugins st1 ps = Inr st'"
    unfolding resolveLoop_Cons_Inr_iff by blast
  from s obtain rs' where st1: "st1 = stepResult st p rs'"
    unfolding resolveStep_Inr_iff by blast
  from Cons.IH [OF l] show ?case
    by (simp add: st1 stepResult_def)
qed

lemma resolveLoop_dicts:
  "resolveLoop plugins st ps = Inr st' \<Longrightarrow>
     ResolvedPlugins.permissions (resolved st') =
       ResolvedPlugins.permissions (resolved st) @ concat (map (entriesOf Permissions) ps) \<and>
     ResolvedPlugins.actions (resolved st') =
       ResolvedPlugins.actions (resolved st) @ concat (map (entriesOf Actions) ps) \<and>
     ResolvedPlugins.routes (resolved st') =
       ResolvedPlugins.routes (resolved st) @ concat (map (entriesOf Routes) ps) \<and>
     mergeRoles (ResolvedPlugins.roles (resolved st)) (concat (map roleEntries ps)) =
       Inr (ResolvedPlugins.roles (resolved st'))"
proof (induction ps arbitrary: st)
  case Nil
  then show ?case by simp
next
  case (Cons p ps)
  then obtain st1 where s: "resolveStep plugins st p = Inr st1"
    and l: "resolveLoop plugins st1 ps = Inr st'"
    unfolding resolveLoop_Cons_Inr_iff by blast
  from s obtain rs' where st1: "st1 = stepResult st p rs'"
    and m: "mergeRoles (ResolvedPlugins.roles (resolved st)) (roleEntries p) = Inr rs'"
    unfolding resolveStep_Inr_iff by blast
  from Cons.IH [OF l] m show ?case
    by (simp add: st1 stepResult_def mergeRoles_append)
qed

lemma resolveLoop_auth:
  "resolveLoop plugins st ps = Inr st' \<Longrightarrow>
     (case authors ps of
        [] \<Rightarrow> ResolvedPlugins.auth (resolved st') = ResolvedPlugins.auth (resolved st) \<and>
              authSource st' = authSource st
      | q # qs \<Rightarrow> qs = [] \<and> ResolvedPlugins.auth (resolved st) = None \<and>
              ResolvedPlugins.auth (resolved st') = auth q \<and>
              authSource st' = Some (name q))"
proof (induction ps arbitrary: st)
  case Nil
  then show ?case by (simp add: authors_def)
next
  case (Cons p ps)
  then obtain st1 where s: "resolveStep plugins st p = Inr st1"
    and l: "resolveLoop plugins st1 ps = Inr st'"
    unfolding resolveLoop_Cons_Inr_iff by blast
  from s obtain rs' where st1: "st1 = stepResult st p rs'"
    and a: "auth p \<noteq> None \<longrightarrow> ResolvedPlugins.auth (resolved st) = None"
    unfolding resolveStep_Inr_iff by blast
  from Cons.IH [OF l] a show ?case
    by (cases "auth p") (auto simp: st1 stepResult_def authors_def split: list.splits)
qed

lemma resolveLoop_success_iff:
  "roleInv (ResolvedPlugins.roles (resolved st)) \<Longrightarrow>
     (\<exists>st'. resolveLoop plugins st ps = Inr st') = loopOk (resolved st) ps"
proof (induction ps arbitrary: st)
  case Nil
  show ?case by (simp add: loopOk_def authors_def)
next
  case (Cons p ps)
  show ?case
  proof (cases "stepOk (resolved st) p")
    case False
    then have "\<not> (\<exists>st1. resolveStep plugins st p = Inr st1)"
      using resolveStep_success_iff [OF Cons.prems] by simp
    moreover from False have "\<not> loopOk (resolved st) (p # ps)"
      by (auto simp: stepOk_def loopOk_def freshKeys_append authors_def split: if_splits)
    ultimately show ?thesis
      unfolding resolveLoop_Cons_Inr_iff by blast
  next
    case True
    then obtain st1 where s: "resolveStep plugins st p = Inr st1"
      using resolveStep_success_iff [OF Cons.prems] by blast
    then obtain rs' where st1: "st1 = stepResult st p rs'"
      and m: "mergeRoles (ResolvedPlugins.roles (resolved st)) (roleEntries p) = Inr rs'"
      unfolding resolveStep_Inr_iff by blast
    from mergeRoles_result [OF Cons.prems m] have inv: "roleInv (ResolvedPlugins.roles (resolved st1))"
      by (simp add: st1 stepResult_def)
    have "(\<exists>st'. resolveLoop plugins st (p # ps) = Inr st') = (\<exists>st'. resolveLoop plugins st1 ps = Inr st')"
      by (simp add: s)
    also have "\<dots> = loopOk (resolved st1) ps"
      by (rule Cons.IH [OF inv])
    also have "\<dots> = loopOk (resolved st) (p # ps)"
      using True
      by (cases "auth p")
        (auto simp: st1 stepResult_def stepOk_def loopOk_def freshKeys_append authors_def)
    finally show ?thesis .
  qed
qed

lemma resolveLoop_append:
  "resolveLoop plugins st (xs @ ys) =
     (case resolveLoop plugins st xs of Inl e \<Rightarrow> Inl e | Inr st1 \<Rightarrow> resolveLoop plugins st1 ys)"
  by (induction xs arbitrary: st) (simp_all split: sum.splits)

lemma roleInv_init [simp]: "roleInv (ResolvedPlugins.roles (resolved initState))"
  by (simp add: initState_def)

lemma resolvePlugins_Inr_iff:
  "resolvePlugins ps = Inr r \<longleftrightarrow> (\<exists>st. resolveLoop ps initState ps = Inr st \<and> r = resolved st)"
  by (auto simp: resolvePlugins_def split: sum.splits)

lemma resolveLoop_success_any:
  "roleInv (ResolvedPlugins.roles (resolved st)) \<Longrightarrow> resolveLoop plugins st ps = Inr st1 \<Longrightarrow>
     \<exists>st2. resolveLoop plugins' st ps = Inr st2"
  using resolveLoop_success_iff [of st plugins ps] resolveLoop_success_iff [of st plugins' ps]
  by blast

lemma resolveStep_auth_conflict:
  assumes "ResolvedPlugins.auth (resolved st) \<noteq> None" and "auth q \<noteq> None"
  shows "resolveStep plugins st q =
     Inl (PluginConflictError ''auth'' ''auth''
            (case authSource st of Some s \<Rightarrow> s | None \<Rightarrow> ''undefined'') (name q))"
  using assms
  by (auto simp: resolveStep_def stepAuth_def stepIntegrations_eq andThen_def)

lemmas example_defs = exA_def exB_def exC_def exN_def exN2_def exD_def plugin0_def

subsection \<open>The roles of a resolved configuration\<close>

lemma listsFor_concat:
  "listsFor role (concat (map roleEntries ps)) = roleLists ps role"
  by (induction ps) (simp_all add: roleLists_def)

lemma resolvePlugins_roles:
  assumes "resolvePlugins ps = Inr r"
  shows "slugsOf (ResolvedPlugins.roles r) role = firstSeen (roleLists ps role)"
    and "hasOwn (ResolvedPlugins.roles r) role =
           (role \<in> set (roleNames ps) \<and> role \<notin> set objectPrototypeKeys)"
    and "rolesOk (concat (map roleEntries ps))"
proof -
  from assms obtain st where l: "resolveLoop ps initState ps = Inr st" and r: "r = resolved st"
    unfolding resolvePlugins_Inr_iff by blast
  from resolveLoop_dicts [OF l]
  have m: "mergeRoles [] (concat (map roleEntries ps)) = Inr (ResolvedPlugins.roles r)"
    by (simp add: r initState_def)
  from mergeRoles_result [OF roleInv_Nil m, of role]
  show "slugsOf (ResolvedPlugins.roles r) role = firstSeen (roleLists ps role)"
    and "hasOwn (ResolvedPlugins.roles r) role =
           (role \<in> set (roleNames ps) \<and> role \<notin> set objectPrototypeKeys)"
    by (simp_all add: listsFor_concat pushAll_empty_acc slugsOf_def hasOwn_def roleNames_def)
  from mergeRoles_success_iff [OF roleInv_Nil, of "concat (map roleEntries ps)"] m
  show "rolesOk (concat (map roleEntries ps))" by simp
qed

lemma resolvePlugins_role_entry:
  assumes "resolvePlugins ps = Inr r" and "roleLists ps role \<noteq> []"
  shows "map_of (ResolvedPlugins.roles r) role = Some (firstSeen (roleLists ps role))"
proof -
  from assms(2) have "firstSeen (roleLists ps role) \<noteq> []"
    by (metis set_firstSeen set_empty)
  with resolvePlugins_roles(1) [OF assms(1), of role] show ?thesis
    by (auto simp: slugsOf_def split: option.splits)
qed

lemma pushPerms_Inl: "pushPerms rs role perms = Inl e \<Longrightarrow> e = TypeError"
  by (induction perms arbitrary: rs) (auto split: option.splits)

lemmas role_example_defs = exEditorA_def exEditorB_def exTwice_def plugin0_def

lemma firstSeen_takeWhile:
  "takeWhile (\<lambda>y. y \<noteq> s) (firstSeen xs) = firstSeen (takeWhile (\<lambda>y. y \<noteq> s) xs)"
proof (induction xs)
  case Nil
  show ?case by simp
next
  case (Cons x xs)
  have tw: "takeWhile (\<lambda>y. y \<noteq> s) (filter (\<lambda>y. y \<noteq> x) ys) =
      filter (\<lambda>y. y \<noteq> x) (takeWhile (\<lambda>y. y \<noteq> s) ys)" if "x \<noteq> s" for ys :: "'a list"
    using that by (induction ys) auto
  from Cons show ?case by (cases "x = s") (simp_all add: tw)
qed

lemma count_list_distinct: "distinct xs \<Longrightarrow> x \<in> set xs \<Longrightarrow> count_list xs x = 1"
  by (induction xs) auto

lemma listsFor_single:
  "distinct (map fst es) \<Longrightarrow> (role, perms) \<in> set es \<Longrightarrow> listsFor role es = perms"
proof (induction es)
  case Nil
  then show ?case by simp
next
  case (Cons e es)
  obtain k v where e: "e = (k, v)" by (cases e)
  have n: "r \<notin> fst ` set es \<Longrightarrow> listsFor r es = []" for r
    by (induction es) (auto simp: listsFor_def)
  from Cons show ?case
    by (auto simp: e listsFor_Cons n intro: rev_image_eqI)
qed

lemma listsFor_member:
  "(role, perms) \<in> set es \<Longrightarrow> set perms \<subseteq> set (listsFor role es)"
  by (induction es) (auto simp: listsFor_def)

subsection \<open>How the merge fails\<close>

lemma resolveLoop_Inl:
  "resolveLoop plugins st ps = Inl e \<Longrightarrow>
     \<exists>pre p post st1. ps = pre @ p # post \<and> resolveLoop plugins st pre = Inr st1 \<and>
        resolveStep plugins st1 p = Inl e"
proof (induction ps arbitrary: st)
  case Nil
  then show ?case by simp
next
  case (Cons q qs)
  show ?case
  proof (cases "resolveStep plugins st q")
    case (Inl e')
    with Cons.prems have "e' = e" by simp
    with Inl have "q # qs = [] @ q # qs \<and> resolveLoop plugins st [] = Inr st \<and>
        resolveStep plugins st q = Inl e" by simp
    then show ?thesis by blast
  next
    case (Inr st')
    with Cons.prems have "resolveLoop plugins st' qs = Inl e" by simp
    from Cons.IH [OF this] obtain pre p post st1 where
      "qs = pre @ p # post" "resolveLoop plugins st' pre = Inr st1" "resolveStep plugins st1 p = Inl e"
      by blast
    with Inr have "q # qs = (q # pre) @ p # post \<and> resolveLoop plugins st (q # pre) = Inr st1 \<and>
        resolveStep plugins st1 p = Inl e" by simp
    then show ?thesis by blast
  qed
qed

lemma stepAuth_Inl:
  "stepAuth p st = Inl e \<Longrightarrow>
     auth p \<noteq> None \<and> ResolvedPlugins.auth (resolved st) \<noteq> None \<and>
     e = PluginConflictError ''auth'' ''auth''
           (case authSource st of Some s \<Rightarrow> s | None \<Rightarrow> ''undefined'') (name p)"
  by (auto simp: stepAuth_def split: option.splits if_splits)

lemma stepRoles_Inl: "stepRoles p r = Inl e \<Longrightarrow> e = TypeError"
  by (auto simp: stepRoles_def andThen_Inl_iff split: option.splits dest: mergeRoles_Inl)

lemma stepPermissions_Inl:
  "stepPermissions plugins p r = Inl e \<Longrightarrow>
     mergeEntries plugins (kindOf Permissions) Permissions (name p) (ResolvedPlugins.permissions r)
       (entriesOf Permissions p) = Inl e"
  by (auto simp: stepPermissions_def andThen_Inl_iff entriesOf_def split: option.splits)

lemma stepActions_Inl:
  "stepActions plugins p r = Inl e \<Longrightarrow>
     mergeEntries plugins (kindOf Actions) Actions (name p) (ResolvedPlugins.actions r)
       (entriesOf Actions p) = Inl e"
  by (auto simp: stepActions_def andThen_Inl_iff entriesOf_def split: option.splits)

lemma stepRoutes_Inl:
  "stepRoutes plugins p r = Inl e \<Longrightarrow>
     mergeEntries plugins (kindOf Routes) Routes (name p) (ResolvedPlugins.routes r)
       (entriesOf Routes p) = Inl e"
  by (auto simp: stepRoutes_def andThen_Inl_iff entriesOf_def split: option.splits)

text \<open>
  The block at which a pass of the loop body throws, with the accumulator that the block
  reads: the blocks before it have not touched that field.
\<close>

lemma stepRest_Inl_field:
  assumes "stepRest plugins p r = Inl e" and "e \<noteq> TypeError"
  shows "mergeEntries plugins (kindOf Permissions) Permissions (name p)
           (ResolvedPlugins.permissions r) (entriesOf Permissions p) = Inl e \<or>
         mergeEntries plugins (kindOf Actions) Actions (name p)
           (ResolvedPlugins.actions r) (entriesOf Actions p) = Inl e \<or>
         mergeEntries plugins (kindOf Routes) Routes (name p)
           (ResolvedPlugins.routes r) (entriesOf Routes p) = Inl e"
proof -
  from assms(1) consider
    (pe) "stepPermissions plugins p r = Inl e"
    | (ro) r1 where "stepPermissions plugins p r = Inr r1" "stepRoles p r1 = Inl e"
    | (ac) r1 r2 where "stepPermissions plugins p r = Inr r1" "stepRoles p r1 = Inr r2"
        "stepActions plugins p r2 = Inl e"
    | (rt) r1 r2 r3 where "stepPermissions plugins p r = Inr r1" "stepRoles p r1 = Inr r2"
        "stepActions plugins p r2 = Inr r3" "stepRoutes plugins p (stepMiddleware p r3) = Inl e"
    unfolding stepRest_def andThen_Inl_iff by auto
  then show ?thesis
  proof cases
    case pe
    from stepPermissions_Inl [OF pe] show ?thesis by blast
  next
    case ro
    from stepRoles_Inl [OF ro(2)] assms(2) show ?thesis by simp
  next
    case ac
    from ac(1,2) have "ResolvedPlugins.actions r2 = ResolvedPlugins.actions r"
      by (auto simp: stepPermissions_Inr_iff stepRoles_Inr_iff)
    with stepActions_Inl [OF ac(3)] show ?thesis by simp
  next
    case rt
    from rt(1,2,3) have "ResolvedPlugins.routes (stepMiddleware p r3) = ResolvedPlugins.routes r"
      by (auto simp: stepPermissions_Inr_iff stepRoles_Inr_iff stepActions_Inr_iff stepMiddleware_eq)
    with stepRoutes_Inl [OF rt(4)] show ?thesis by simp
  qed
qed

lemma resolveStep_Inl_field:
  assumes "resolveStep plugins st p = Inl e" and "e \<noteq> TypeError"
  shows "(auth p \<noteq> None \<and> ResolvedPlugins.auth (resolved st) \<noteq> None \<and>
          e = PluginConflictError ''auth'' ''auth''
               (case authSource st of Some s \<Rightarrow> s | None \<Rightarrow> ''undefined'') (name p)) \<or>
         mergeEntries plugins (kindOf Permissions) Permissions (name p)
           (ResolvedPlugins.permissions (resolved st)) (entriesOf Permissions p) = Inl e \<or>
         mergeEntries plugins (kindOf Actions) Actions (name p)
           (ResolvedPlugins.actions (resolved st)) (entriesOf Actions p) = Inl e \<or>
         mergeEntries plugins (kindOf Routes) Routes (name p)
           (ResolvedPlugins.routes (resolved st)) (entriesOf Routes p) = Inl e"
proof -
  from assms(1) consider
    (au) "stepAuth p (st\<lparr>resolved := stepIntegrations p (resolved st)\<rparr>) = Inl e"
    | (re) st1 where "stepAuth p (st\<lparr>resolved := stepIntegrations p (resolved st)\<rparr>) = Inr st1"
        "stepRest plugins p (resolved st1) = Inl e"
    unfolding resolveStep_def andThen_Inl_iff by auto
  then show ?thesis
  proof cases
    case au
    from stepAuth_Inl [OF au] show ?thesis by (simp add: stepIntegrations_eq)
  next
    case re
    from re(1) have "ResolvedPlugins.permissions (resolved st1) = ResolvedPlugins.permissions (resolved st)"
      and "ResolvedPlugins.actions (resolved st1) = ResolvedPlugins.actions (resolved st)"
      and "ResolvedPlugins.routes (resolved st1) = ResolvedPlugins.routes (resolved st)"
      by (auto simp: stepAuth_Inr_iff stepIntegrations_eq split: option.splits)
    with stepRest_Inl_field [OF re(2) assms(2)] show ?thesis by simp
  qed
qed

lemma find_filter_hd:
  "find P xs = (case filter P xs of [] \<Rightarrow> None | x # ys \<Rightarrow> Some x)"
  by (induction xs) simp_all

text \<open>
  \<^verbatim>\<open>findOwner\<close> as a scan: the first descriptor, among those before the first one of
  the current name, whose object for the field answers to the key.
\<close>

lemma findOwner_find:
  "findOwner plugins fld key currentName =
     (case find (\<lambda>p. case getField fld p of None \<Rightarrow> False | Some obj \<Rightarrow> hasProperty obj key)
             (takeWhile (\<lambda>p. name p \<noteq> currentName) plugins) of
        None \<Rightarrow> ''engine config''
      | Some p \<Rightarrow> name p)"
  by (induction plugins) (auto split: option.splits)

lemma takeWhile_trigger:
  "name p \<notin> name ` set pre \<Longrightarrow> takeWhile (\<lambda>q. name q \<noteq> name p) (pre @ p # post) = pre"
  by (induction pre) auto

lemma registered_iff:
  "k \<in> fst ` set (concat (map (entriesOf fld) pre)) \<longleftrightarrow> (\<exists>q \<in> set pre. containsKey fld k q)"
  by (auto simp: containsKey_def)

lemma resolveLoop_init_dicts:
  assumes "resolveLoop plugins initState pre = Inr st"
  shows "ResolvedPlugins.permissions (resolved st) = concat (map (entriesOf Permissions) pre)"
    and "ResolvedPlugins.actions (resolved st) = concat (map (entriesOf Actions) pre)"
    and "ResolvedPlugins.routes (resolved st) = concat (map (entriesOf Routes) pre)"
  using resolveLoop_dicts [OF assms] by (simp_all add: initState_def)

text \<open>What a conflict on a key of one of the three mappings says about the descriptors.\<close>

lemma mergeEntries_conflict:
  assumes m: "mergeEntries ps (kindOf fld) fld (name p) (concat (map (entriesOf fld) pre))
                (entriesOf fld p) = Inl e"
    and ps: "ps = pre @ p # post"
  shows "\<exists>key ownerA es1 v es2.
     e = PluginConflictError (kindOf fld) key ownerA (name p) \<and>
     entriesOf fld p = es1 @ (key, v) # es2 \<and>
     (\<forall>k \<in> fst ` set es1. \<forall>q \<in> set pre. \<not> containsKey fld k q) \<and>
     (key \<notin> set objectPrototypeKeys \<longrightarrow>
        ownerA = firstOwner ps fld key (name p) \<and>
        (distinct (map fst (entriesOf fld p)) \<longrightarrow>
           (\<exists>q \<in> set pre. containsKey fld key q) \<and>
           (name p \<notin> name ` set pre \<longrightarrow>
              (\<exists>q. find (containsKey fld key) pre = Some q \<and> ownerA = name q))))"
proof -
  let ?acc = "concat (map (entriesOf fld) pre)"
  from mergeEntries_Inl_first [OF m] obtain es1 key v es2 where
    es: "entriesOf fld p = es1 @ (key, v) # es2" and f: "freshKeys ?acc es1"
    and h: "hasProperty (?acc @ es1) key"
    and e: "e = PluginConflictError (kindOf fld) key (findOwner ps fld key (name p)) (name p)"
    by blast
  have first: "\<forall>k \<in> fst ` set es1. \<forall>q \<in> set pre. \<not> containsKey fld k q"
  proof (intro ballI)
    fix k q assume k: "k \<in> fst ` set es1" and q: "q \<in> set pre"
    from f k have "\<not> hasProperty ?acc k" by (auto simp: freshKeys_def)
    then have "k \<notin> fst ` set ?acc" by (simp add: hasProperty_def hasOwn_iff)
    with q show "\<not> containsKey fld k q" unfolding registered_iff by blast
  qed
  have own: "findOwner ps fld key (name p) = firstOwner ps fld key (name p) \<and>
        (distinct (map fst (entriesOf fld p)) \<longrightarrow>
           (\<exists>q \<in> set pre. containsKey fld key q) \<and>
           (name p \<notin> name ` set pre \<longrightarrow>
              (\<exists>q. find (containsKey fld key) pre = Some q \<and>
                   findOwner ps fld key (name p) = name q)))"
    if k: "key \<notin> set objectPrototypeKeys"
  proof (intro conjI impI)
    have "(case getField fld q of None \<Rightarrow> False | Some obj \<Rightarrow> hasProperty obj key) =
        containsKey fld key q" for q
      using k
      by (simp add: containsKey_def entriesOf_def hasProperty_def hasOwn_iff split: option.splits)
    then show o: "findOwner ps fld key (name p) = firstOwner ps fld key (name p)"
      by (simp add: findOwner_find firstOwner_def)
    assume "distinct (map fst (entriesOf fld p))"
    then have "key \<notin> fst ` set es1" by (auto simp: es)
    with h k have "key \<in> fst ` set ?acc"
      by (simp add: hasProperty_append) (simp add: hasProperty_def hasOwn_iff)
    then show r: "\<exists>q \<in> set pre. containsKey fld key q" unfolding registered_iff .
    assume "name p \<notin> name ` set pre"
    then have t: "takeWhile (\<lambda>q. name q \<noteq> name p) ps = pre"
      unfolding ps by (rule takeWhile_trigger)
    from r obtain q where "find (containsKey fld key) pre = Some q"
      by (cases "find (containsKey fld key) pre") (auto simp: find_None_iff)
    with o t show "\<exists>q. find (containsKey fld key) pre = Some q \<and>
        findOwner ps fld key (name p) = name q"
      by (simp add: firstOwner_def)
  qed
  from e es first own show ?thesis by blast
qed

subsection \<open>Two adjacent descriptors swapped\<close>

lemma freshKeys_swap:
  "freshKeys acc (X @ A @ B @ Y) = freshKeys acc (X @ B @ A @ Y)"
  unfolding freshKeys_def by auto

lemma map_of_swap:
  assumes "distinct (map fst (X @ A @ B @ Y))"
  shows "map_of (X @ A @ B @ Y) = map_of (X @ B @ A @ Y)"
proof -
  from assms have "dom (map_of A) \<inter> dom (map_of B) = {}"
    by (auto simp: dom_map_of_conv_image_fst)
  then have c: "map_of B ++ map_of A = map_of A ++ map_of B"
    by (rule map_add_comm [symmetric])
  have "map_of Y ++ map_of B ++ map_of A = map_of Y ++ (map_of B ++ map_of A)"
    by simp
  also have "\<dots> = map_of Y ++ (map_of A ++ map_of B)"
    by (simp only: c)
  also have "\<dots> = map_of Y ++ map_of A ++ map_of B"
    by simp
  finally show ?thesis by simp
qed

lemma loopOk_swap: "loopOk r (xs @ a # b # ys) = loopOk r (xs @ b # a # ys)"
proof -
  have f: "freshKeys acc (concat (map g (xs @ a # b # ys))) =
      freshKeys acc (concat (map g (xs @ b # a # ys)))" for acc :: "opaque dict" and g
    using freshKeys_swap [of acc "concat (map g xs)" "g a" "g b" "concat (map g ys)"] by simp
  have a: "length (authors (xs @ a # b # ys)) = length (authors (xs @ b # a # ys))"
    "(authors (xs @ a # b # ys) = []) = (authors (xs @ b # a # ys) = [])"
    by (auto simp: authors_def)
  have r: "rolesOk (concat (map roleEntries (xs @ a # b # ys))) =
      rolesOk (concat (map roleEntries (xs @ b # a # ys)))"
    by auto
  show ?thesis unfolding loopOk_def f a r ..
qed

lemma resolvePlugins_success_iff:
  "(\<exists>r. resolvePlugins ps = Inr r) = loopOk (resolved initState) ps"
  using resolveLoop_success_iff [OF roleInv_init, of ps ps]
  unfolding resolvePlugins_Inr_iff by blast

lemma resolvePlugins_fields:
  assumes "resolvePlugins ps = Inr r"
  shows "ResolvedPlugins.integrations r = concat (map intgsOf ps)"
    and "ResolvedPlugins.middleware r = concat (map mwOf ps)"
    and "Hooks.onInit (hooks r) = concat (map (\<lambda>p. hookOf (onInit p)) ps)"
    and "Hooks.onRequest (hooks r) = concat (map (\<lambda>p. hookOf (onRequest p)) ps)"
    and "Hooks.onError (hooks r) = concat (map (\<lambda>p. hookOf (onError p)) ps)"
    and "Hooks.onShutdown (hooks r) = concat (map (\<lambda>p. hookOf (onShutdown p)) ps)"
    and "ResolvedPlugins.permissions r = concat (map (entriesOf Permissions) ps)"
    and "ResolvedPlugins.actions r = concat (map (entriesOf Actions) ps)"
    and "ResolvedPlugins.routes r = concat (map (entriesOf Routes) ps)"
    and "ResolvedPlugins.auth r = (case authors ps of [] \<Rightarrow> None | q # qs \<Rightarrow> auth q)"
proof -
  from assms obtain st where l: "resolveLoop ps initState ps = Inr st" and r: "r = resolved st"
    unfolding resolvePlugins_Inr_iff by blast
  from resolveLoop_lists [OF l]
  show "ResolvedPlugins.integrations r = concat (map intgsOf ps)"
    and "ResolvedPlugins.middleware r = concat (map mwOf ps)"
    and "Hooks.onInit (hooks r) = concat (map (\<lambda>p. hookOf (onInit p)) ps)"
    and "Hooks.onRequest (hooks r) = concat (map (\<lambda>p. hookOf (onRequest p)) ps)"
    and "Hooks.onError (hooks r) = concat (map (\<lambda>p. hookOf (onError p)) ps)"
    and "Hooks.onShutdown (hooks r) = concat (map (\<lambda>p. hookOf (onShutdown p)) ps)"
    by (simp_all add: r initState_def)
  from resolveLoop_dicts [OF l]
  show "ResolvedPlugins.permissions r = concat (map (entriesOf Permissions) ps)"
    and "ResolvedPlugins.actions r = concat (map (entriesOf Actions) ps)"
    and "ResolvedPlugins.routes r = concat (map (entriesOf Routes) ps)"
    by (simp_all add: r initState_def)
  from resolveLoop_auth [OF l]
  show "ResolvedPlugins.auth r = (case authors ps of [] \<Rightarrow> None | q # qs \<Rightarrow> auth q)"
    by (simp add: r initState_def split: list.splits)
qed

lemma authors_swap:
  "length (authors (xs @ a # b # ys)) \<le> 1 \<Longrightarrow>
     authors (xs @ a # b # ys) = authors (xs @ b # a # ys)"
  by (auto simp: authors_def)

lemma dom_map_of_hasOwn: "dom (map_of obj) = {k. hasOwn obj k}"
  by (auto simp: hasOwn_def)

subsection \<open>Over the store: every write goes to a fresh cell\<close>

lemma take_prefix_length: "take n xs = ys \<Longrightarrow> length ys = n \<Longrightarrow> n \<le> length xs"
  by (metis length_take min.cobounded1 min_def)

lemma unchanged_refl [simp]: "unchanged h h"
  by (simp add: unchanged_def)

lemma unchanged_lengths:
  assumes "unchanged h0 h"
  shows "length (objArrays h0) \<le> length (objArrays h)"
    and "length (strArrays h0) \<le> length (strArrays h)"
    and "length (objDicts h0) \<le> length (objDicts h)"
    and "length (roleDicts h0) \<le> length (roleDicts h)"
  using assms unfolding unchanged_def by (metis length_take min.cobounded1 min_def)+

lemma unchanged_allocObjArray: "unchanged h0 h \<Longrightarrow> unchanged h0 (snd (allocObjArray h))"
  using unchanged_lengths(1) [of h0 h] by (simp add: unchanged_def allocObjArray_def)

lemma unchanged_allocStrArray: "unchanged h0 h \<Longrightarrow> unchanged h0 (snd (allocStrArray h))"
  using unchanged_lengths(2) [of h0 h] by (simp add: unchanged_def allocStrArray_def)

lemma unchanged_allocObjDict: "unchanged h0 h \<Longrightarrow> unchanged h0 (snd (allocObjDict h))"
  using unchanged_lengths(3) [of h0 h] by (simp add: unchanged_def allocObjDict_def)

lemma unchanged_allocRoleDict: "unchanged h0 h \<Longrightarrow> unchanged h0 (snd (allocRoleDict h))"
  using unchanged_lengths(4) [of h0 h] by (simp add: unchanged_def allocRoleDict_def)

lemma unchanged_pushObjArray:
  "unchanged h0 h \<Longrightarrow> length (objArrays h0) \<le> a \<Longrightarrow> unchanged h0 (pushObjArray a xs h)"
  by (simp add: unchanged_def pushObjArray_def)

lemma unchanged_pushStrArray:
  "unchanged h0 h \<Longrightarrow> length (strArrays h0) \<le> a \<Longrightarrow> unchanged h0 (pushStrArray a x h)"
  by (simp add: unchanged_def pushStrArray_def)

lemma unchanged_assignObjDict:
  "unchanged h0 h \<Longrightarrow> length (objDicts h0) \<le> a \<Longrightarrow> unchanged h0 (assignObjDict a k v h)"
  by (simp add: unchanged_def assignObjDict_def)

lemma unchanged_assignRoleDict:
  "unchanged h0 h \<Longrightarrow> length (roleDicts h0) \<le> a \<Longrightarrow> unchanged h0 (assignRoleDict a k v h)"
  by (simp add: unchanged_def assignRoleDict_def)

lemma unchanged_mergeEntriesH:
  "unchanged h0 h \<Longrightarrow> length (objDicts h0) \<le> acc \<Longrightarrow>
     unchanged h0 (fst (mergeEntriesH plugins kind fld pname acc entries h))"
proof (induction entries arbitrary: h)
  case Nil
  then show ?case by simp
next
  case (Cons e entries)
  obtain k v where e: "e = (k, v)" by (cases e)
  from Cons show ?case
    by (simp add: e unchanged_assignObjDict)
qed

lemma roleDicts_mergeEntriesH:
  "roleDicts (fst (mergeEntriesH plugins kind fld pname acc entries h)) = roleDicts h"
proof (induction entries arbitrary: h)
  case Nil
  then show ?case by simp
next
  case (Cons e entries)
  obtain k v where e: "e = (k, v)" by (cases e)
  from Cons show ?case by (simp add: e assignObjDict_def)
qed

lemma inv_pushPermsH:
  "unchanged h0 h \<Longrightarrow> rolesInv h0 rolesAt h \<Longrightarrow>
     unchanged h0 (fst (pushPermsH rolesAt role perms i h)) \<and>
     rolesInv h0 rolesAt (fst (pushPermsH rolesAt role perms i h))"
proof (induction rolesAt role perms i h rule: pushPermsH.induct)
  case (1 rolesAt role perms i h)
  show ?case
  proof (cases "i < length (strArrays h ! perms)")
    case False
    with "1.prems" show ?thesis by (simp add: pushPermsH.simps)
  next
    case True
    show ?thesis
    proof (cases "map_of (roleDicts h ! rolesAt) role")
      case None
      with True "1.prems" show ?thesis by (simp add: pushPermsH.simps)
    next
      case (Some target)
      then have "(role, target) \<in> set (roleDicts h ! rolesAt)" by (rule map_of_SomeD)
      then have "target \<in> snd ` set (roleDicts h ! rolesAt)" by force
      with "1.prems"(2) have t: "length (strArrays h0) \<le> target"
        unfolding rolesInv_def by blast
      show ?thesis
      proof (cases "strArrays h ! perms ! i \<in> set (strArrays h ! target)")
        case yes: True
        from "1.IH"(1) [OF True Some yes "1.prems"] True Some yes show ?thesis
          by (simp add: pushPermsH.simps [of rolesAt role perms i h])
      next
        case no: False
        let ?h = "pushStrArray target (strArrays h ! perms ! i) h"
        from "1.prems"(1) t have u: "unchanged h0 ?h" by (rule unchanged_pushStrArray)
        from "1.prems"(2) have r: "rolesInv h0 rolesAt ?h"
          by (simp add: rolesInv_def pushStrArray_def)
        from "1.IH"(2) [OF True Some no u r] True Some no show ?thesis
          by (simp add: pushPermsH.simps [of rolesAt role perms i h])
      qed
    qed
  qed
qed

lemma set_setProp: "x \<in> set (setProp k v obj) \<Longrightarrow> snd x = v \<or> x \<in> set obj"
  by (induction obj) (auto split: if_splits)

lemma ball_setProp:
  "P v \<Longrightarrow> \<forall>a \<in> snd ` set obj. P a \<Longrightarrow> \<forall>a \<in> snd ` set (setProp k v obj). P a"
  using set_setProp [of _ k v obj] by fastforce

lemma inv_mergeRolesH:
  "unchanged h0 h \<Longrightarrow> rolesInv h0 rolesAt h \<Longrightarrow>
     unchanged h0 (fst (mergeRolesH rolesAt entries h)) \<and>
     rolesInv h0 rolesAt (fst (mergeRolesH rolesAt entries h))"
proof (induction entries arbitrary: h)
  case Nil
  then show ?case by simp
next
  case (Cons e entries)
  obtain role perms where e: "e = (role, perms)" by (cases e)
  let ?h1 = "if hasProperty (roleDicts h ! rolesAt) role then h
              else assignRoleDict rolesAt role (fst (allocStrArray h)) (snd (allocStrArray h))"
  have u1: "unchanged h0 ?h1"
    using Cons.prems
    by (auto simp: rolesInv_def intro!: unchanged_assignRoleDict unchanged_allocStrArray)
  have r1: "rolesInv h0 rolesAt ?h1"
  proof (cases "hasProperty (roleDicts h ! rolesAt) role")
    case True
    with Cons.prems show ?thesis by simp
  next
    case False
    from Cons.prems(1) have "length (strArrays h0) \<le> length (strArrays h)"
      by (rule unchanged_lengths)
    moreover from Cons.prems(2)
    have "\<forall>a \<in> snd ` set (roleDicts h ! rolesAt). length (strArrays h0) \<le> a"
      by (simp add: rolesInv_def)
    ultimately have "\<forall>a \<in> snd ` set (setProp role (length (strArrays h)) (roleDicts h ! rolesAt)).
        length (strArrays h0) \<le> a"
      by (rule ball_setProp)
    with Cons.prems(2) False show ?thesis
      by (simp add: rolesInv_def assignRoleDict_def allocStrArray_def)
  qed
  from inv_pushPermsH [OF u1 r1, of role perms 0]
  have u2: "unchanged h0 (fst (pushPermsH rolesAt role perms 0 ?h1))"
    and r2: "rolesInv h0 rolesAt (fst (pushPermsH rolesAt role perms 0 ?h1))"
    by blast+
  show ?case
  proof (cases "pushPermsH rolesAt role perms 0 ?h1")
    case (Pair h2 err)
    with u2 r2 have "unchanged h0 h2" and "rolesInv h0 rolesAt h2" by simp_all
    from Cons.IH [OF this] this Pair show ?thesis
      by (cases err) (simp_all add: e)
  qed
qed

lemma roleDicts_pushObjArray [simp]: "roleDicts (pushObjArray a xs h) = roleDicts h"
  and strArrays_pushObjArray [simp]: "strArrays (pushObjArray a xs h) = strArrays h"
  by (simp_all add: pushObjArray_def)

lemma rolesInv_cong:
  "roleDicts h' = roleDicts h \<Longrightarrow> rolesInv h0 rolesAt h' = rolesInv h0 rolesAt h"
  by (simp add: rolesInv_def)

lemma unchanged_pushFrom:
  "unchanged h0 h \<Longrightarrow> length (objArrays h0) \<le> target \<Longrightarrow> unchanged h0 (pushFrom target source h)"
  by (cases source) (simp_all add: pushFrom_def unchanged_pushObjArray)

lemma roleDicts_pushFrom [simp]: "roleDicts (pushFrom target source h) = roleDicts h"
  by (cases source) (simp_all add: pushFrom_def)

lemma unchanged_pushHookH:
  "unchanged h0 h \<Longrightarrow> length (objArrays h0) \<le> target \<Longrightarrow> unchanged h0 (pushHookH target hook h)"
  by (cases hook) (simp_all add: pushHookH_def unchanged_pushObjArray)

lemma roleDicts_pushHookH [simp]: "roleDicts (pushHookH target hook h) = roleDicts h"
  by (cases hook) (simp_all add: pushHookH_def)

lemma unchanged_stepHooksH:
  "unchanged h0 h \<Longrightarrow> length (objArrays h0) \<le> HooksRef.onInit hs \<Longrightarrow>
     length (objArrays h0) \<le> HooksRef.onRequest hs \<Longrightarrow>
     length (objArrays h0) \<le> HooksRef.onError hs \<Longrightarrow>
     length (objArrays h0) \<le> HooksRef.onShutdown hs \<Longrightarrow>
     unchanged h0 (stepHooksH d hs h)"
  by (simp add: stepHooksH_def unchanged_pushHookH)

lemma roleDicts_stepHooksH [simp]: "roleDicts (stepHooksH d hs h) = roleDicts h"
  by (simp add: stepHooksH_def)

lemma unchanged_mergeFieldH:
  "unchanged h0 h \<Longrightarrow> length (objDicts h0) \<le> acc \<Longrightarrow>
     unchanged h0 (fst (mergeFieldH plugins kind fld d acc h))"
  by (cases "getFieldRef fld d") (simp_all add: mergeFieldH_def unchanged_mergeEntriesH)

lemma roleDicts_mergeFieldH [simp]:
  "roleDicts (fst (mergeFieldH plugins kind fld d acc h)) = roleDicts h"
  by (cases "getFieldRef fld d") (simp_all add: mergeFieldH_def roleDicts_mergeEntriesH)

lemma inv_stepRolesH:
  "unchanged h0 h \<Longrightarrow> rolesInv h0 rolesAt h \<Longrightarrow>
     unchanged h0 (fst (stepRolesH d rolesAt h)) \<and> rolesInv h0 rolesAt (fst (stepRolesH d rolesAt h))"
  by (cases "PluginRef.roles d") (simp_all add: stepRolesH_def inv_mergeRolesH)

lemma thenH_inv:
  assumes "P (fst m)" and "\<And>st. P st \<Longrightarrow> P (fst (f st))"
  shows "P (fst (thenH m f))"
proof (cases m)
  case (Pair st err)
  with assms show ?thesis by (cases err) (simp_all add: thenH_def)
qed

lemma onHeap_fst:
  "heap (fst (onHeap f st)) = fst (f (heap st))"
  "resolvedRef (fst (onHeap f st)) = resolvedRef st"
  by (simp_all add: onHeap_def split: prod.splits)

lemma stepAuthH_fst:
  "heap (fst (stepAuthH d st)) = heap st"
  "ResolvedRef.roles (resolvedRef (fst (stepAuthH d st))) = ResolvedRef.roles (resolvedRef st)"
  "freshRefs h0 (resolvedRef (fst (stepAuthH d st))) = freshRefs h0 (resolvedRef st)"
  by (simp_all add: stepAuthH_def freshRefs_def split: option.splits)

lemma heapInv_resolveStepH:
  assumes "heapInv h0 st"
  shows "heapInv h0 (fst (resolveStepH plugins st p))"
proof -
  define r where "r = resolvedRef st"
  define d where "d = descriptors (heap st) ! p"
  define P where "P = (\<lambda>st' :: HeapState. unchanged h0 (heap st') \<and> rolesInv h0 (ResolvedRef.roles r) (heap st') \<and>
      freshRefs h0 (resolvedRef st') \<and>
      ResolvedRef.roles (resolvedRef st') = ResolvedRef.roles r)"
  from assms have f: "freshRefs h0 r" and u: "unchanged h0 (heap st)"
    and ri: "rolesInv h0 (ResolvedRef.roles r) (heap st)"
    by (simp_all add: heapInv_def r_def)
  have field: "P (fst (onHeap (mergeFieldH plugins kind fld d acc) st'))"
    if "P st'" and "length (objDicts h0) \<le> acc" for st' kind fld acc
    using that
    by (simp add: P_def onHeap_fst unchanged_mergeFieldH rolesInv_cong [OF roleDicts_mergeFieldH])
  have rolesStep: "P (fst (onHeap (stepRolesH d (ResolvedRef.roles r)) st'))" if "P st'" for st'
    using that inv_stepRolesH [of h0 "heap st'" "ResolvedRef.roles r" d]
    by (simp add: P_def onHeap_fst)
  have push: "P (st'\<lparr>heap := pushFrom target source (heap st')\<rparr>)"
    if "P st'" and "length (objArrays h0) \<le> target" for st' target source
    using that
    by (simp add: P_def unchanged_pushFrom rolesInv_cong [OF roleDicts_pushFrom])
  have hooksStep: "P (st'\<lparr>heap := stepHooksH d (ResolvedRef.hooks r) (heap st')\<rparr>)" if "P st'" for st'
    using that f
    by (simp add: P_def freshRefs_def unchanged_stepHooksH rolesInv_cong [OF roleDicts_stepHooksH])
  have authStep: "P (fst (stepAuthH d st'))" if "P st'" for st'
    using that by (simp add: P_def stepAuthH_fst)
  have P0: "P st" using u ri f by (simp add: P_def r_def)
  from f have ai: "length (objArrays h0) \<le> ResolvedRef.integrations r"
    and am: "length (objArrays h0) \<le> ResolvedRef.middleware r"
    and ap: "length (objDicts h0) \<le> ResolvedRef.permissions r"
    and aa: "length (objDicts h0) \<le> ResolvedRef.actions r"
    and ar: "length (objDicts h0) \<le> ResolvedRef.routes r"
    by (simp_all add: freshRefs_def)
  have "P (fst (resolveStepH plugins st p))"
    unfolding resolveStepH_def Let_def r_def [symmetric] d_def [symmetric]
    apply (rule thenH_inv [where P = P])
     apply (rule authStep, rule push, rule P0, rule ai)
    apply (rule thenH_inv [where P = P])
     apply (rule field, assumption, rule ap)
    apply (rule thenH_inv [where P = P])
     apply (rule rolesStep, assumption)
    apply (rule thenH_inv [where P = P])
     apply (rule field, assumption, rule aa)
    apply (rule thenH_inv [where P = P])
     apply (rule field, rule push, assumption, rule am, rule ar)
    apply (simp add: hooksStep)
    done
  then show ?thesis by (simp add: P_def heapInv_def)
qed

lemma heapInv_resolveLoopH:
  "heapInv h0 st \<Longrightarrow> heapInv h0 (fst (resolveLoopH plugins st ps))"
proof (induction ps arbitrary: st)
  case Nil
  then show ?case by simp
next
  case (Cons p ps)
  show ?case
  proof (cases "resolveStepH plugins st p")
    case (Pair st' err)
    with heapInv_resolveStepH [OF Cons.prems, of plugins p] have i: "heapInv h0 st'" by simp
    from Cons.IH [OF i] i Pair show ?thesis by (cases err) simp_all
  qed
qed

lemma heapInv_initStateH: "heapInv h (initStateH h)"
  by (simp add: heapInv_def initStateH_def allocObjArray_def allocObjDict_def allocRoleDict_def
      unchanged_def freshRefs_def rolesInv_def nth_append)

text \<open>
  \<^verbatim>\<open>key in obj\<close> is true of an inherited property as well: for the key
  \<^verbatim>\<open>constructor\<close> the tracer names the first earlier descriptor that has a
  permissions object at all.
\<close>

lemma findOwner_inherited_key:
  "findOwner [exN, exA, exB] Permissions ''constructor'' ''B'' = ''A''"
  by code_simp

subsection \<open>Fail-fast, and descriptors without overlap\<close>

lemma findOwner_append:
  "currentName \<in> name ` set ps \<Longrightarrow>
     findOwner (ps @ rest) fld key currentName = findOwner ps fld key currentName"
  by (induction ps) (auto split: option.splits)

lemma mergeEntries_owner_cong:
  assumes "\<And>k. findOwner pl1 fld k pn = findOwner pl2 fld k pn"
  shows "mergeEntries pl1 kind fld pn acc es = mergeEntries pl2 kind fld pn acc es"
proof (induction es arbitrary: acc)
  case Nil
  show ?case by simp
next
  case (Cons e es)
  obtain k v where e: "e = (k, v)" by (cases e)
  from Cons assms show ?case by (simp add: e)
qed

lemma resolveStep_owner_cong:
  assumes "\<And>fld k. findOwner pl1 fld k (name p) = findOwner pl2 fld k (name p)"
  shows "resolveStep pl1 st p = resolveStep pl2 st p"
proof -
  have m: "mergeEntries pl1 kind fld (name p) acc es = mergeEntries pl2 kind fld (name p) acc es"
    for kind fld acc es
    by (rule mergeEntries_owner_cong) (rule assms)
  have "stepPermissions pl1 p r = stepPermissions pl2 p r" for r
    by (cases "permissions p") (simp_all add: stepPermissions_def m)
  moreover have "stepActions pl1 p r = stepActions pl2 p r" for r
    by (cases "actions p") (simp_all add: stepActions_def m)
  moreover have "stepRoutes pl1 p r = stepRoutes pl2 p r" for r
    by (cases "routes p") (simp_all add: stepRoutes_def m)
  ultimately show ?thesis
    by (simp add: resolveStep_def stepRest_def)
qed

lemma resolveLoop_owner_cong:
  assumes "\<And>p fld k. p \<in> set ps \<Longrightarrow> findOwner pl1 fld k (name p) = findOwner pl2 fld k (name p)"
  shows "resolveLoop pl1 st ps = resolveLoop pl2 st ps"
  using assms
proof (induction ps arbitrary: st)
  case Nil
  show ?case by simp
next
  case (Cons p ps)
  have "resolveStep pl1 st p = resolveStep pl2 st p"
    by (rule resolveStep_owner_cong) (simp add: Cons.prems)
  moreover have "resolveLoop pl1 st' ps = resolveLoop pl2 st' ps" for st'
    by (rule Cons.IH) (simp add: Cons.prems)
  ultimately show ?case by (simp split: sum.splits)
qed

text \<open>
  Fail-fast: once a prefix of the descriptors makes the merge throw, the result is that
  error whatever follows; no later descriptor is looked at.
\<close>

lemma resolvePlugins_fail_fast:
  assumes "resolvePlugins ps = Inl e"
  shows "resolvePlugins (ps @ rest) = Inl e"
proof -
  have "resolveLoop (ps @ rest) initState ps = resolveLoop ps initState ps"
    by (rule resolveLoop_owner_cong) (simp add: findOwner_append)
  moreover from assms have "resolveLoop ps initState ps = Inl e"
    by (auto simp: resolvePlugins_def split: sum.splits)
  ultimately show ?thesis
    by (simp add: resolvePlugins_def resolveLoop_append)
qed

text \<open>
  The result for descriptors without overlap: when at most one descriptor supplies auth,
  the permission slugs, the action names and the route keys are each pairwise different and
  none of them, nor any role that is given a slug, names a property of
  \<^verbatim>\<open>Object.prototype\<close>, the merge succeeds and the integrations and the middleware
  are the concatenations in descriptor order.
\<close>

lemma resolvePlugins_without_overlap:
  assumes "length (authors ps) \<le> 1"
    and "\<And>fld. distinct (map fst (concat (map (entriesOf fld) ps)))"
    and "\<And>fld p k. p \<in> set ps \<Longrightarrow> k \<in> fst ` set (entriesOf fld p) \<Longrightarrow> k \<notin> set objectPrototypeKeys"
    and "\<And>p role perms. p \<in> set ps \<Longrightarrow> (role, perms) \<in> set (roleEntries p) \<Longrightarrow> perms \<noteq> [] \<Longrightarrow>
           role \<notin> set objectPrototypeKeys"
  shows "\<exists>r. resolvePlugins ps = Inr r \<and>
           ResolvedPlugins.integrations r = concat (map intgsOf ps) \<and>
           ResolvedPlugins.middleware r = concat (map mwOf ps)"
proof -
  have f: "freshKeys [] (concat (map (entriesOf fld) ps))" for fld
    using assms(2) [of fld] assms(3) [of _ _ fld]
    by (auto simp: freshKeys_def hasProperty_def hasOwn_def)
  have "rolesOk (concat (map roleEntries ps))"
    using assms(4) by (auto simp: rolesOk_def)
  with f assms(1) have "loopOk (resolved initState) ps"
    by (simp add: loopOk_def initState_def)
  then obtain r where r: "resolvePlugins ps = Inr r"
    using resolvePlugins_success_iff [of ps] by blast
  from resolvePlugins_fields(1,2) [OF r] r show ?thesis by blast
qed

subsection \<open>Over the store: the two models agree\<close>

lemma unchanged_nth:
  assumes "unchanged h0 h"
  shows "a < length (objArrays h0) \<Longrightarrow> objArrays h ! a = objArrays h0 ! a"
    and "a < length (strArrays h0) \<Longrightarrow> strArrays h ! a = strArrays h0 ! a"
    and "a < length (objDicts h0) \<Longrightarrow> objDicts h ! a = objDicts h0 ! a"
    and "a < length (roleDicts h0) \<Longrightarrow> roleDicts h ! a = roleDicts h0 ! a"
    and "descriptors h = descriptors h0"
  using assms unfolding unchanged_def by (metis nth_take)+

lemma absRoleDict_cong:
  "(\<And>a. a \<in> snd ` set d \<Longrightarrow> strArrays h ! a = strArrays h' ! a) \<Longrightarrow>
     absRoleDict h d = absRoleDict h' d"
  unfolding absRoleDict_def by (rule map_cong) force+

lemma absPlugin_unchanged:
  assumes "unchanged h0 h" and "wfPluginRef h0 d"
  shows "absPlugin h d = absPlugin h0 d"
proof -
  have r: "absRoleDict h (roleDicts h ! a) = absRoleDict h0 (roleDicts h0 ! a)"
    if "PluginRef.roles d = Some a" for a
  proof -
    from that assms(2) have a: "a < length (roleDicts h0)"
      and x: "\<forall>x \<in> snd ` set (roleDicts h0 ! a). x < length (strArrays h0)"
      by (simp_all add: wfPluginRef_def inRange_def)
    from unchanged_nth(4) [OF assms(1) a] have "roleDicts h ! a = roleDicts h0 ! a" .
    moreover have "absRoleDict h (roleDicts h0 ! a) = absRoleDict h0 (roleDicts h0 ! a)"
      by (rule absRoleDict_cong) (use x unchanged_nth(2) [OF assms(1)] in blast)
    ultimately show ?thesis by simp
  qed
  from assms(2) unchanged_nth(1,3) [OF assms(1)] r show ?thesis
    by (auto simp: absPlugin_def wfPluginRef_def inRange_def map_option_case split: option.splits)
qed

lemma getField_absPlugin:
  "getField fld (absPlugin h d) = map_option (\<lambda>a. objDicts h ! a) (getFieldRef fld d)"
  by (cases fld) (simp_all add: absPlugin_def)

lemma findOwnerH_sim:
  assumes "unchanged h0 h" and "wfInput h0 plugins"
  shows "findOwnerH h plugins fld key cur = findOwner (inputPlugins h0 plugins) fld key cur"
  using assms(2)
proof (induction plugins)
  case Nil
  show ?case by (simp add: inputPlugins_def)
next
  case (Cons p plugins)
  then have w: "wfPluginRef h0 (descriptors h0 ! p)" and wr: "wfInput h0 plugins"
    by (simp_all add: wfInput_def)
  have d: "descriptors h ! p = descriptors h0 ! p"
    by (simp add: unchanged_nth(5) [OF assms(1)])
  have g: "objDicts h ! a = objDicts h0 ! a" if "getFieldRef fld (descriptors h0 ! p) = Some a" for a
  proof -
    from that w have "a < length (objDicts h0)"
      by (cases fld) (simp_all add: wfPluginRef_def inRange_def)
    then show ?thesis by (rule unchanged_nth(3) [OF assms(1)])
  qed
  have n: "Plugin.name (absPlugin h0 d') = PluginRef.name d'" for d'
    by (simp add: absPlugin_def)
  from Cons.IH [OF wr] have ih:
    "findOwnerH h plugins fld key cur = findOwner (inputPlugins h0 plugins) fld key cur" .
  show ?case
    by (cases "getFieldRef fld (descriptors h0 ! p)")
      (simp_all add: inputPlugins_def [of h0 "p # plugins"] inputPlugins_def [symmetric, of h0 plugins]
        d n getField_absPlugin ih g)
qed

lemma sameOthers_refl [simp]: "sameOthers h h"
  by (simp add: sameOthers_def)

lemma sameOthers_trans: "sameOthers h h1 \<Longrightarrow> sameOthers h1 h2 \<Longrightarrow> sameOthers h h2"
  by (simp add: sameOthers_def)

lemma mergeEntriesH_sim:
  assumes "unchanged h0 h" and "wfInput h0 plugins"
    and "length (objDicts h0) \<le> acc" and "acc < length (objDicts h)"
  shows "case mergeEntriesH plugins kind fld pn acc es h of
           (h', Some e) \<Rightarrow>
             mergeEntries (inputPlugins h0 plugins) kind fld pn (objDicts h ! acc) es = Inl e
         | (h', None) \<Rightarrow>
             (\<exists>acc'. mergeEntries (inputPlugins h0 plugins) kind fld pn (objDicts h ! acc) es = Inr acc' \<and>
                h' = h\<lparr>objDicts := (objDicts h)[acc := acc']\<rparr>)"
  using assms(1,4)
proof (induction es arbitrary: h)
  case Nil
  then show ?case by simp
next
  case (Cons x es)
  obtain k v where x: "x = (k, v)" by (cases x)
  show ?case
  proof (cases "hasProperty (objDicts h ! acc) k")
    case True
    with findOwnerH_sim [OF Cons.prems(1) assms(2)] show ?thesis by (simp add: x)
  next
    case False
    let ?h1 = "assignObjDict acc k v h"
    from Cons.prems(1) assms(3) have u: "unchanged h0 ?h1" by (rule unchanged_assignObjDict)
    from Cons.prems(2) have l: "acc < length (objDicts ?h1)" by (simp add: assignObjDict_def)
    from Cons.prems(2) have n: "objDicts ?h1 ! acc = setProp k v (objDicts h ! acc)"
      by (simp add: assignObjDict_def)
    have o: "?h1\<lparr>objDicts := (objDicts ?h1)[acc := y]\<rparr> = h\<lparr>objDicts := (objDicts h)[acc := y]\<rparr>" for y
      by (simp add: assignObjDict_def)
    from Cons.IH [OF u l] False show ?thesis
      by (auto simp: x n o split: prod.splits option.splits)
  qed
qed

lemma map_of_absRoleDict:
  "map_of (absRoleDict h d) role = map_option (\<lambda>a. strArrays h ! a) (map_of d role)"
  by (induction d) (auto simp: absRoleDict_def)

lemma keys_absRoleDict [simp]: "map fst (absRoleDict h d) = map fst d"
  by (induction d) (auto simp: absRoleDict_def)

lemma hasProperty_absRoleDict [simp]: "hasProperty (absRoleDict h d) role = hasProperty d role"
  by (simp add: hasProperty_def hasOwn_def map_of_absRoleDict)

lemma absRoleDict_setProp:
  "absRoleDict h (setProp role a d) = setProp role (strArrays h ! a) (absRoleDict h d)"
  by (induction d) (auto simp: absRoleDict_def)

lemma absRoleDict_push:
  assumes "map_of d role = Some target" and "distinct (map snd d)"
    and "target < length (strArrays h)"
  shows "absRoleDict (pushStrArray target x h) d =
     setProp role (strArrays h ! target @ [x]) (absRoleDict h d)"
  using assms(1,2)
proof (induction d)
  case Nil
  then show ?case by simp
next
  case (Cons e d)
  obtain k a where e: "e = (k, a)" by (cases e)
  show ?case
  proof (cases "k = role")
    case True
    with Cons.prems e have t: "a = target" and n: "target \<notin> snd ` set d" by auto
    have "absRoleDict (pushStrArray target x h) d = absRoleDict h d"
    proof (rule absRoleDict_cong)
      fix b assume "b \<in> snd ` set d"
      with n have "b \<noteq> target" by blast
      then show "strArrays (pushStrArray target x h) ! b = strArrays h ! b"
        by (simp add: pushStrArray_def)
    qed
    with True t assms(3) show ?thesis
      by (simp add: e absRoleDict_def pushStrArray_def)
  next
    case False
    with Cons.prems e have m: "map_of d role = Some target" and dd: "distinct (map snd d)"
      by auto
    from m have "target \<in> snd ` set d" by (force dest: map_of_SomeD)
    with Cons.prems(2) e have "a \<noteq> target" by auto
    with Cons.IH [OF m dd] False show ?thesis
      by (simp add: e absRoleDict_def pushStrArray_def)
  qed
qed

lemma pushPermsH_sim:
  "k = length (roleDicts h0) \<Longrightarrow> perms < length (strArrays h0) \<Longrightarrow> rolesSim h0 h \<Longrightarrow>
     (case pushPermsH k role perms i h of
        (h', Some e) \<Rightarrow>
          pushPerms (absRoleDict h (roleDicts h ! k)) role (drop i (strArrays h0 ! perms)) = Inl e
      | (h', None) \<Rightarrow>
          pushPerms (absRoleDict h (roleDicts h ! k)) role (drop i (strArrays h0 ! perms)) =
            Inr (absRoleDict h' (roleDicts h' ! k)) \<and>
          rolesSim h0 h' \<and> sameOthers h h')"
proof (induction k role perms i h rule: pushPermsH.induct)
  case (1 k role perms i h)
  let ?rd = "roleDicts h ! k"
  note k = \<open>k = length (roleDicts h0)\<close> and pa = \<open>perms < length (strArrays h0)\<close>
    and rs = \<open>rolesSim h0 h\<close>
  from rs have u: "unchanged h0 h" by (simp add: rolesSim_def)
  have ps: "strArrays h ! perms = strArrays h0 ! perms"
    by (rule unchanged_nth(2) [OF u pa])
  show ?case
  proof (cases "i < length (strArrays h ! perms)")
    case False
    with rs show ?thesis
      by (simp add: pushPermsH.simps [of k role perms i h] ps)
  next
    case True
    then have dr: "drop i (strArrays h0 ! perms) =
        strArrays h0 ! perms ! i # drop (Suc i) (strArrays h0 ! perms)"
      by (simp add: ps Cons_nth_drop_Suc)
    show ?thesis
    proof (cases "map_of ?rd role")
      case None
      with True show ?thesis
        by (simp add: pushPermsH.simps [of k role perms i h] dr map_of_absRoleDict)
    next
      case (Some target)
      then have "target \<in> snd ` set ?rd" by (force dest: map_of_SomeD)
      with rs k have t0: "length (strArrays h0) \<le> target" and t1: "target < length (strArrays h)"
        unfolding rolesSim_def by blast+
      have ma: "map_of (absRoleDict h ?rd) role = Some (strArrays h ! target)"
        by (simp add: map_of_absRoleDict Some)
      show ?thesis
      proof (cases "strArrays h ! perms ! i \<in> set (strArrays h ! target)")
        case yes: True
        from "1.IH"(1) [OF True Some yes k pa rs] True Some yes show ?thesis
          by (auto simp: pushPermsH.simps [of k role perms i h] dr ma ps
              split: prod.splits option.splits)
      next
        case no: False
        let ?x = "strArrays h ! perms ! i"
        let ?h1 = "pushStrArray target ?x h"
        have r1: "roleDicts (pushStrArray target y h) = roleDicts h" for y
          by (simp add: pushStrArray_def)
        from u t0 have u1: "unchanged h0 ?h1" by (rule unchanged_pushStrArray)
        with rs have s1: "rolesSim h0 ?h1"
          by (simp add: rolesSim_def r1 pushStrArray_def)
        from rs k have dd: "distinct (map snd ?rd)" by (simp add: rolesSim_def)
        have ab: "absRoleDict (pushStrArray target y h) ?rd =
            setProp role (strArrays h ! target @ [y]) (absRoleDict h ?rd)" for y
          by (rule absRoleDict_push [OF Some dd t1])
        have so: "sameOthers h (pushStrArray target y h)" for y
          by (simp add: sameOthers_def pushStrArray_def)
        have tr: "sameOthers (pushStrArray target y h) h' \<Longrightarrow> sameOthers h h'" for h' y
          by (rule sameOthers_trans [OF so])
        from "1.IH"(2) [OF True Some no k pa s1] True Some no show ?thesis
          by (auto simp: pushPermsH.simps [of k role perms i h] dr ma ps r1 ab tr
              split: prod.splits option.splits)
      qed
    qed
  qed
qed

lemma ensureRole_sim:
  fixes role :: string
  assumes rs: "rolesSim h0 h" and k: "k = length (roleDicts h0)"
  defines "h1 \<equiv> (if hasProperty (roleDicts h ! k) role then h
              else assignRoleDict k role (fst (allocStrArray h)) (snd (allocStrArray h)))"
  shows "rolesSim h0 h1 \<and> sameOthers h h1 \<and>
         absRoleDict h1 (roleDicts h1 ! k) =
           (if hasProperty (absRoleDict h (roleDicts h ! k)) role then absRoleDict h (roleDicts h ! k)
            else setProp role [] (absRoleDict h (roleDicts h ! k)))"
proof (cases "hasProperty (roleDicts h ! k) role")
  case True
  then have "h1 = h" by (simp add: h1_def)
  with rs True show ?thesis by simp
next
  case False
  let ?rd = "roleDicts h ! k"
  let ?a = "length (strArrays h)"
  from rs have u: "unchanged h0 h" and kl: "k < length (roleDicts h)"
    and dd: "distinct (map snd ?rd)"
    and bd: "\<forall>a \<in> snd ` set ?rd. length (strArrays h0) \<le> a \<and> a < length (strArrays h)"
    by (simp_all add: rolesSim_def k)
  from False have h1: "h1 = h\<lparr>strArrays := strArrays h @ [[]],
      roleDicts := (roleDicts h)[k := setProp role ?a ?rd]\<rparr>"
    by (simp add: h1_def assignRoleDict_def allocStrArray_def)
  from False have no: "\<not> hasOwn ?rd role" by (simp add: hasProperty_def)
  then have sp: "setProp role ?a ?rd = ?rd @ [(role, ?a)]" by (rule setProp_fresh)
  from bd have na: "?a \<notin> snd ` set ?rd" by auto
  have rd1: "roleDicts h1 ! k = ?rd @ [(role, ?a)]"
    using kl by (simp add: h1 sp)
  have un: "unchanged h0 h1"
    using u unchanged_lengths(2,4) [OF u] k
    by (simp add: h1 unchanged_def)
  from unchanged_lengths(2) [OF u] have "length (strArrays h0) \<le> ?a" .
  moreover have l1: "length (strArrays h1) = Suc ?a" by (simp add: h1)
  ultimately have bd1: "\<forall>a \<in> snd ` set (roleDicts h1 ! k).
      length (strArrays h0) \<le> a \<and> a < length (strArrays h1)"
    using bd by (auto simp: rd1)
  from dd na have dd1: "distinct (map snd (roleDicts h1 ! k))"
    by (simp add: rd1)
  from un kl dd1 bd1 have 1: "rolesSim h0 h1"
    by (simp add: rolesSim_def k [symmetric] h1)
  have 2: "sameOthers h h1" by (simp add: sameOthers_def h1)
  have old: "absRoleDict h1 ?rd = absRoleDict h ?rd"
    by (rule absRoleDict_cong) (use bd in \<open>auto simp: h1 nth_append\<close>)
  have sa: "strArrays h1 ! ?a = []" by (simp add: h1)
  have "absRoleDict h1 (roleDicts h1 ! k) = absRoleDict h1 (?rd @ [(role, ?a)])"
    by (simp only: rd1)
  also have "\<dots> = absRoleDict h1 ?rd @ [(role, [])]"
    by (simp add: absRoleDict_def sa)
  also have "\<dots> = setProp role [] (absRoleDict h ?rd)"
    using no by (simp add: old setProp_fresh hasOwn_def map_of_absRoleDict)
  finally have 3: "absRoleDict h1 (roleDicts h1 ! k) =
         (if hasProperty (absRoleDict h ?rd) role then absRoleDict h ?rd
          else setProp role [] (absRoleDict h ?rd))"
    using False by simp
  from 1 2 3 show ?thesis by blast
qed

lemma mergeRolesH_sim:
  "k = length (roleDicts h0) \<Longrightarrow> \<forall>pa \<in> snd ` set es. pa < length (strArrays h0) \<Longrightarrow>
   rolesSim h0 h \<Longrightarrow>
     (case mergeRolesH k es h of
        (h', Some e) \<Rightarrow>
          mergeRoles (absRoleDict h (roleDicts h ! k)) (absRoleDict h0 es) = Inl e
      | (h', None) \<Rightarrow>
          mergeRoles (absRoleDict h (roleDicts h ! k)) (absRoleDict h0 es) =
            Inr (absRoleDict h' (roleDicts h' ! k)) \<and>
          rolesSim h0 h' \<and> sameOthers h h')"
proof (induction es arbitrary: h)
  case Nil
  then show ?case by (simp add: absRoleDict_def)
next
  case (Cons x es)
  obtain role pa where x: "x = (role, pa)" by (cases x)
  note k = \<open>k = length (roleDicts h0)\<close> and rs = \<open>rolesSim h0 h\<close>
  from Cons.prems(2) have pa: "pa < length (strArrays h0)"
    and rest: "\<forall>pa \<in> snd ` set es. pa < length (strArrays h0)"
    by (simp_all add: x)
  let ?h1 = "if hasProperty (roleDicts h ! k) role then h
              else assignRoleDict k role (fst (allocStrArray h)) (snd (allocStrArray h))"
  let ?rs = "absRoleDict h (roleDicts h ! k)"
  let ?rs1 = "if hasProperty ?rs role then ?rs else setProp role [] ?rs"
  from ensureRole_sim [OF rs k, where role = role]
  have e: "rolesSim h0 ?h1" "sameOthers h ?h1"
    "absRoleDict ?h1 (roleDicts ?h1 ! k) = ?rs1"
    by blast+
  have ax: "absRoleDict h0 ((role, pa) # es) = (role, strArrays h0 ! pa) # absRoleDict h0 es"
    by (simp add: absRoleDict_def)
  from pushPermsH_sim [OF k pa e(1), of role 0]
  have pp: "case pushPermsH k role pa 0 ?h1 of
        (h', Some e) \<Rightarrow> pushPerms ?rs1 role (strArrays h0 ! pa) = Inl e
      | (h', None) \<Rightarrow>
          pushPerms ?rs1 role (strArrays h0 ! pa) = Inr (absRoleDict h' (roleDicts h' ! k)) \<and>
          rolesSim h0 h' \<and> sameOthers ?h1 h'"
    by (simp only: e(3) drop_0)
  show ?case
  proof (cases "pushPermsH k role pa 0 ?h1")
    case (Pair h2 err)
    show ?thesis
    proof (cases err)
      case (Some e')
      with Pair pp show ?thesis by (simp add: x ax)
    next
      case None
      with Pair pp have p1: "pushPerms ?rs1 role (strArrays h0 ! pa) = Inr (absRoleDict h2 (roleDicts h2 ! k))"
        and r2: "rolesSim h0 h2" and s2: "sameOthers ?h1 h2"
        by simp_all
      from sameOthers_trans [OF e(2) s2] have s02: "sameOthers h h2" .
      from Cons.IH [OF k rest r2] sameOthers_trans [OF s02] Pair None p1
      show ?thesis
        by (auto simp: x ax split: prod.splits option.splits)
    qed
  qed
qed

lemma simRes_thenH:
  assumes "simRes h0 m pm" and "\<And>st. good h0 st \<Longrightarrow> simRes h0 (f st) (pf (absState st))"
  shows "simRes h0 (thenH m f) (andThen pm pf)"
proof (cases m)
  case (Pair st err)
  with assms show ?thesis
    by (cases err) (simp_all add: simRes_def thenH_def andThen_def)
qed

lemma resolveStep_phases:
  "resolveStep plugins ms p =
     andThen (stepAuth p (ms\<lparr>resolved := stepIntegrations p (resolved ms)\<rparr>)) (\<lambda>s1.
     andThen (liftR (stepPermissions plugins p) s1) (\<lambda>s2.
     andThen (liftR (stepRoles p) s2) (\<lambda>s3.
     andThen (liftR (stepActions plugins p) s3) (\<lambda>s4.
     andThen (liftR (stepRoutes plugins p) (s4\<lparr>resolved := stepMiddleware p (resolved s4)\<rparr>)) (\<lambda>s5.
     Inr (s5\<lparr>resolved := stepHooks p (resolved s5)\<rparr>))))))"
  by (simp add: resolveStep_def stepRest_def liftR_def andThen_def split: sum.splits)

lemma simInv_rolesSim: "simInv h0 h \<Longrightarrow> rolesSim h0 h"
  by (simp add: simInv_def rolesSim_def)

lemma simInv_from_roles:
  "simInv h0 h \<Longrightarrow> rolesSim h0 h' \<Longrightarrow> sameOthers h h' \<Longrightarrow> simInv h0 h'"
  by (simp add: simInv_def rolesSim_def sameOthers_def)

lemma simInv_objDicts_update:
  "simInv h0 h \<Longrightarrow> length (objDicts h0) \<le> acc \<Longrightarrow> simInv h0 (h\<lparr>objDicts := (objDicts h)[acc := x]\<rparr>)"
  by (simp add: simInv_def unchanged_def)

lemma simInv_pushObjArray:
  "simInv h0 h \<Longrightarrow> length (objArrays h0) \<le> t \<Longrightarrow> simInv h0 (pushObjArray t xs h)"
  by (simp add: simInv_def unchanged_def pushObjArray_def)

lemma absState_heap_update:
  "absState (st\<lparr>heap := h\<rparr>) =
     \<lparr>resolved = absResolved h (resolvedRef st), MergeState.authSource = HeapState.authSource st\<rparr>"
  by (simp add: absState_def)

lemma good_stepAuthH:
  assumes "good h0 st" and "Plugin.name P = PluginRef.name d" and "Plugin.auth P = PluginRef.auth d"
  shows "simRes h0 (stepAuthH d st) (stepAuth P (absState st))"
  using assms
  by (cases "PluginRef.auth d")
    (auto simp: simRes_def stepAuthH_def stepAuth_def absState_def absResolved_def good_def layout_def)

lemma simInv_lengths:
  assumes "simInv h0 h"
  shows "length (objArrays h) = length (objArrays h0) + 6"
    and "length (objDicts h) = length (objDicts h0) + 3"
    and "length (roleDicts h) = length (roleDicts h0) + 1"
    and "unchanged h0 h"
  using assms by (simp_all add: simInv_def)

lemma absRoleDict_strArrays: "strArrays h' = strArrays h \<Longrightarrow> absRoleDict h' d = absRoleDict h d"
  by (simp add: absRoleDict_def)

lemma absRoleDict_updates [simp]:
  "absRoleDict (h\<lparr>objArrays := xs\<rparr>) d = absRoleDict h d"
  "absRoleDict (h\<lparr>objDicts := ys\<rparr>) d = absRoleDict h d"
  "absRoleDict (h\<lparr>roleDicts := zs\<rparr>) d = absRoleDict h d"
  by (simp_all add: absRoleDict_def)

lemma good_pushIntegrations:
  assumes g: "good h0 st" and w: "wfPluginRef h0 d"
  defines "st1 \<equiv> st\<lparr>heap := pushFrom (length (objArrays h0)) (PluginRef.integrations d) (heap st)\<rparr>"
  shows "good h0 st1 \<and>
         absState st1 = (absState st)\<lparr>resolved := stepIntegrations (absPlugin h0 d) (resolved (absState st))\<rparr>"
proof (cases "PluginRef.integrations d")
  case None
  with g show ?thesis
    by (simp add: st1_def pushFrom_def stepIntegrations_def absPlugin_def absState_def)
next
  case (Some a)
  from g have s: "simInv h0 (heap st)" and l: "layout h0 (resolvedRef st)"
    by (simp_all add: good_def)
  from Some w have "a < length (objArrays h0)" by (simp add: wfPluginRef_def inRange_def)
  from unchanged_nth(1) [OF simInv_lengths(4) [OF s] this]
  have src: "objArrays (heap st) ! a = objArrays h0 ! a" .
  from simInv_pushObjArray [OF s, of "length (objArrays h0)"] l
  have "good h0 st1"
    by (simp add: st1_def good_def pushFrom_def Some)
  moreover have "absState st1 =
      (absState st)\<lparr>resolved := stepIntegrations (absPlugin h0 d) (resolved (absState st))\<rparr>"
    using l simInv_lengths(1) [OF s]
    by (simp add: st1_def pushFrom_def Some stepIntegrations_def absPlugin_def absState_def
        absResolved_def pushObjArray_def layout_def src)
  ultimately show ?thesis by blast
qed

lemma good_pushMiddleware:
  assumes g: "good h0 st" and w: "wfPluginRef h0 d"
  defines "st1 \<equiv> st\<lparr>heap := pushFrom (length (objArrays h0) + 1) (PluginRef.middleware d) (heap st)\<rparr>"
  shows "good h0 st1 \<and>
         absState st1 = (absState st)\<lparr>resolved := stepMiddleware (absPlugin h0 d) (resolved (absState st))\<rparr>"
proof (cases "PluginRef.middleware d")
  case None
  with g show ?thesis
    by (simp add: st1_def pushFrom_def stepMiddleware_def absPlugin_def absState_def)
next
  case (Some a)
  from g have s: "simInv h0 (heap st)" and l: "layout h0 (resolvedRef st)"
    by (simp_all add: good_def)
  from Some w have "a < length (objArrays h0)" by (simp add: wfPluginRef_def inRange_def)
  from unchanged_nth(1) [OF simInv_lengths(4) [OF s] this]
  have src: "objArrays (heap st) ! a = objArrays h0 ! a" .
  from simInv_pushObjArray [OF s, of "length (objArrays h0) + 1"] l
  have "good h0 st1"
    by (simp add: st1_def good_def pushFrom_def Some)
  moreover have "absState st1 =
      (absState st)\<lparr>resolved := stepMiddleware (absPlugin h0 d) (resolved (absState st))\<rparr>"
    using l simInv_lengths(1) [OF s]
    by (simp add: st1_def pushFrom_def Some stepMiddleware_def absPlugin_def absState_def
        absResolved_def pushObjArray_def layout_def src)
  ultimately show ?thesis by blast
qed

lemma simInv_pushHookH:
  "simInv h0 h \<Longrightarrow> length (objArrays h0) \<le> t \<Longrightarrow> simInv h0 (pushHookH t hook h)"
  by (cases hook) (simp_all add: pushHookH_def simInv_pushObjArray)

lemma pushHookH_arrays:
  "t < length (objArrays h) \<Longrightarrow>
     objArrays (pushHookH t hook h) = (objArrays h)[t := pushHook hook (objArrays h ! t)]"
  by (cases hook) (simp_all add: pushHookH_def pushHook_def pushObjArray_def)

lemma pushHookH_others:
  "objDicts (pushHookH t hook h) = objDicts h"
  "strArrays (pushHookH t hook h) = strArrays h"
  "length (objArrays (pushHookH t hook h)) = length (objArrays h)"
  by (cases hook; simp add: pushHookH_def pushObjArray_def)+

lemma absRoleDict_pushHookH [simp]: "absRoleDict (pushHookH t hook h) d = absRoleDict h d"
  by (rule absRoleDict_strArrays) (simp add: pushHookH_others)

lemma good_stepHooksH:
  fixes d :: PluginRef
  assumes g: "good h0 st" and lr: "layout h0 r"
  defines "st1 \<equiv> st\<lparr>heap := stepHooksH d (ResolvedRef.hooks r) (heap st)\<rparr>"
  shows "good h0 st1 \<and>
         absState st1 = (absState st)\<lparr>resolved := stepHooks (absPlugin h0 d) (resolved (absState st))\<rparr>"
proof -
  from g have s: "simInv h0 (heap st)" and l: "layout h0 (resolvedRef st)"
    by (simp_all add: good_def)
  have "simInv h0 (stepHooksH d (ResolvedRef.hooks r) (heap st))"
    unfolding stepHooksH_def
    by (intro simInv_pushHookH s) (use lr in \<open>simp_all add: layout_def\<close>)
  with l have "good h0 st1" by (simp add: st1_def good_def)
  moreover have "absState st1 =
      (absState st)\<lparr>resolved := stepHooks (absPlugin h0 d) (resolved (absState st))\<rparr>"
    using l lr simInv_lengths(1) [OF s]
    by (simp add: st1_def stepHooksH_def stepHooks_def absPlugin_def absState_def
        absResolved_def layout_def pushHookH_arrays pushHookH_others)
  ultimately show ?thesis by blast
qed

lemma liftR_Inr_same: "g (resolved ms) = Inr (resolved ms) \<Longrightarrow> liftR g ms = Inr ms"
  by (simp add: liftR_def andThen_def)

lemma onHeap_simps:
  "f (heap st) = (h', err) \<Longrightarrow> onHeap f st = (st\<lparr>heap := h'\<rparr>, err)"
  by (simp add: onHeap_def)

lemma good_heap_update:
  "good h0 st \<Longrightarrow> simInv h0 h' \<Longrightarrow> good h0 (st\<lparr>heap := h'\<rparr>)"
  by (simp add: good_def)

lemma good_mergeField:
  assumes g: "good h0 st" and wi: "wfInput h0 plugins" and w: "wfPluginRef h0 d"
    and acc: "length (objDicts h0) \<le> acc" "acc < length (objDicts h0) + 3"
    and src: "getField fld (absPlugin h0 d) = map_option (\<lambda>a. objDicts h0 ! a) (getFieldRef fld d)"
    and pure: "stepX (absResolved (heap st) (resolvedRef st)) =
        (case getField fld (absPlugin h0 d) of
           None \<Rightarrow> Inr (absResolved (heap st) (resolvedRef st))
         | Some obj \<Rightarrow>
             andThen (mergeEntries (inputPlugins h0 plugins) kind fld (Plugin.name (absPlugin h0 d))
                        (objDicts (heap st) ! acc) obj)
               (\<lambda>acc'. Inr (upd acc' (absResolved (heap st) (resolvedRef st)))))"
    and upd: "\<And>acc'. absResolved ((heap st)\<lparr>objDicts := (objDicts (heap st))[acc := acc']\<rparr>) (resolvedRef st) =
        upd acc' (absResolved (heap st) (resolvedRef st))"
  shows "simRes h0 (onHeap (mergeFieldH plugins kind fld d acc) st) (liftR stepX (absState st))"
proof (cases "getFieldRef fld d")
  case None
  with g src show ?thesis
    by (simp add: mergeFieldH_def onHeap_def simRes_def liftR_def andThen_def pure absState_def)
next
  case (Some a)
  from g have s: "simInv h0 (heap st)" by (simp add: good_def)
  note u = simInv_lengths(4) [OF s]
  from Some w have "a < length (objDicts h0)"
    by (cases fld) (simp_all add: wfPluginRef_def inRange_def)
  from unchanged_nth(3) [OF u this] have e: "objDicts (heap st) ! a = objDicts h0 ! a" .
  from acc(2) simInv_lengths(2) [OF s] have al: "acc < length (objDicts (heap st))" by simp
  have n: "Plugin.name (absPlugin h0 d) = PluginRef.name d" by (simp add: absPlugin_def)
  note sim = mergeEntriesH_sim [OF u wi acc(1) al, of kind fld "PluginRef.name d" "objDicts h0 ! a"]
  show ?thesis
  proof (cases "mergeEntriesH plugins kind fld (PluginRef.name d) acc (objDicts h0 ! a) (heap st)")
    case (Pair h' err)
    show ?thesis
    proof (cases err)
      case (Some e')
      with Pair sim \<open>getFieldRef fld d = Some a\<close> show ?thesis
        by (simp add: mergeFieldH_def onHeap_def e simRes_def liftR_def andThen_def pure src n
            absState_def)
    next
      case None
      with Pair sim obtain acc' where
        m: "mergeEntries (inputPlugins h0 plugins) kind fld (PluginRef.name d)
              (objDicts (heap st) ! acc) (objDicts h0 ! a) = Inr acc'"
        and h': "h' = (heap st)\<lparr>objDicts := (objDicts (heap st))[acc := acc']\<rparr>"
        by auto
      from simInv_objDicts_update [OF s acc(1)] have "simInv h0 h'" by (simp add: h')
      with g have "good h0 (st\<lparr>heap := h'\<rparr>)" by (rule good_heap_update)
      moreover have "liftR stepX (absState st) = Inr (absState (st\<lparr>heap := h'\<rparr>))"
        using \<open>getFieldRef fld d = Some a\<close>
        by (simp add: liftR_def pure src n m andThen_def absState_def h' upd)
      ultimately show ?thesis
        using Pair None \<open>getFieldRef fld d = Some a\<close>
        by (simp add: mergeFieldH_def onHeap_def e simRes_def)
    qed
  qed
qed

lemma good_permissions:
  assumes g: "good h0 st" and wi: "wfInput h0 plugins" and w: "wfPluginRef h0 d"
  shows "simRes h0 (onHeap (mergeFieldH plugins ''permission'' Permissions d (length (objDicts h0))) st)
           (liftR (stepPermissions (inputPlugins h0 plugins) (absPlugin h0 d)) (absState st))"
proof (rule good_mergeField [OF g wi w, where upd = "\<lambda>acc' r. r\<lparr>ResolvedPlugins.permissions := acc'\<rparr>"])
  from g have l: "layout h0 (resolvedRef st)" and s: "simInv h0 (heap st)"
    by (simp_all add: good_def)
  show "length (objDicts h0) \<le> length (objDicts h0)" "length (objDicts h0) < length (objDicts h0) + 3"
    by simp_all
  show "getField Permissions (absPlugin h0 d) =
      map_option (\<lambda>a. objDicts h0 ! a) (getFieldRef Permissions d)"
    by (rule getField_absPlugin)
  show "stepPermissions (inputPlugins h0 plugins) (absPlugin h0 d) (absResolved (heap st) (resolvedRef st)) =
      (case getField Permissions (absPlugin h0 d) of
         None \<Rightarrow> Inr (absResolved (heap st) (resolvedRef st))
       | Some obj \<Rightarrow>
           andThen (mergeEntries (inputPlugins h0 plugins) ''permission'' Permissions
                      (Plugin.name (absPlugin h0 d)) (objDicts (heap st) ! length (objDicts h0)) obj)
             (\<lambda>acc'. Inr (absResolved (heap st) (resolvedRef st)\<lparr>ResolvedPlugins.permissions := acc'\<rparr>)))"
  proof -
    from l have "ResolvedPlugins.permissions (absResolved (heap st) (resolvedRef st)) =
        objDicts (heap st) ! ResolvedRef.permissions (resolvedRef st)"
      by (simp add: absResolved_def)
    with l show ?thesis
      by (cases "Plugin.permissions (absPlugin h0 d)") (simp_all add: stepPermissions_def layout_def)
  qed
  show "absResolved (heap st\<lparr>objDicts := (objDicts (heap st))[length (objDicts h0) := acc']\<rparr>) (resolvedRef st) =
      absResolved (heap st) (resolvedRef st)\<lparr>ResolvedPlugins.permissions := acc'\<rparr>" for acc'
    using l simInv_lengths(2) [OF s] by (simp add: absResolved_def layout_def)
qed

lemma good_actions:
  assumes g: "good h0 st" and wi: "wfInput h0 plugins" and w: "wfPluginRef h0 d"
  shows "simRes h0 (onHeap (mergeFieldH plugins ''action'' Actions d (length (objDicts h0) + 1)) st)
           (liftR (stepActions (inputPlugins h0 plugins) (absPlugin h0 d)) (absState st))"
proof (rule good_mergeField [OF g wi w, where upd = "\<lambda>acc' r. r\<lparr>ResolvedPlugins.actions := acc'\<rparr>"])
  from g have l: "layout h0 (resolvedRef st)" and s: "simInv h0 (heap st)"
    by (simp_all add: good_def)
  show "length (objDicts h0) \<le> length (objDicts h0) + 1" "length (objDicts h0) + 1 < length (objDicts h0) + 3"
    by simp_all
  show "getField Actions (absPlugin h0 d) =
      map_option (\<lambda>a. objDicts h0 ! a) (getFieldRef Actions d)"
    by (rule getField_absPlugin)
  show "stepActions (inputPlugins h0 plugins) (absPlugin h0 d) (absResolved (heap st) (resolvedRef st)) =
      (case getField Actions (absPlugin h0 d) of
         None \<Rightarrow> Inr (absResolved (heap st) (resolvedRef st))
       | Some obj \<Rightarrow>
           andThen (mergeEntries (inputPlugins h0 plugins) ''action'' Actions
                      (Plugin.name (absPlugin h0 d)) (objDicts (heap st) ! (length (objDicts h0) + 1)) obj)
             (\<lambda>acc'. Inr (absResolved (heap st) (resolvedRef st)\<lparr>ResolvedPlugins.actions := acc'\<rparr>)))"
  proof -
    from l have "ResolvedPlugins.actions (absResolved (heap st) (resolvedRef st)) =
        objDicts (heap st) ! ResolvedRef.actions (resolvedRef st)"
      by (simp add: absResolved_def)
    with l show ?thesis
      by (cases "Plugin.actions (absPlugin h0 d)") (simp_all add: stepActions_def layout_def)
  qed
  show "absResolved (heap st\<lparr>objDicts := (objDicts (heap st))[length (objDicts h0) + 1 := acc']\<rparr>) (resolvedRef st) =
      absResolved (heap st) (resolvedRef st)\<lparr>ResolvedPlugins.actions := acc'\<rparr>" for acc'
    using l simInv_lengths(2) [OF s] by (simp add: absResolved_def layout_def)
qed

lemma good_routes:
  assumes g: "good h0 st" and wi: "wfInput h0 plugins" and w: "wfPluginRef h0 d"
  shows "simRes h0 (onHeap (mergeFieldH plugins ''route'' Routes d (length (objDicts h0) + 2)) st)
           (liftR (stepRoutes (inputPlugins h0 plugins) (absPlugin h0 d)) (absState st))"
proof (rule good_mergeField [OF g wi w, where upd = "\<lambda>acc' r. r\<lparr>ResolvedPlugins.routes := acc'\<rparr>"])
  from g have l: "layout h0 (resolvedRef st)" and s: "simInv h0 (heap st)"
    by (simp_all add: good_def)
  show "length (objDicts h0) \<le> length (objDicts h0) + 2" "length (objDicts h0) + 2 < length (objDicts h0) + 3"
    by simp_all
  show "getField Routes (absPlugin h0 d) =
      map_option (\<lambda>a. objDicts h0 ! a) (getFieldRef Routes d)"
    by (rule getField_absPlugin)
  show "stepRoutes (inputPlugins h0 plugins) (absPlugin h0 d) (absResolved (heap st) (resolvedRef st)) =
      (case getField Routes (absPlugin h0 d) of
         None \<Rightarrow> Inr (absResolved (heap st) (resolvedRef st))
       | Some obj \<Rightarrow>
           andThen (mergeEntries (inputPlugins h0 plugins) ''route'' Routes
                      (Plugin.name (absPlugin h0 d)) (objDicts (heap st) ! (length (objDicts h0) + 2)) obj)
             (\<lambda>acc'. Inr (absResolved (heap st) (resolvedRef st)\<lparr>ResolvedPlugins.routes := acc'\<rparr>)))"
  proof -
    from l have "ResolvedPlugins.routes (absResolved (heap st) (resolvedRef st)) =
        objDicts (heap st) ! ResolvedRef.routes (resolvedRef st)"
      by (simp add: absResolved_def)
    with l show ?thesis
      by (cases "Plugin.routes (absPlugin h0 d)") (simp_all add: stepRoutes_def layout_def)
  qed
  show "absResolved (heap st\<lparr>objDicts := (objDicts (heap st))[length (objDicts h0) + 2 := acc']\<rparr>) (resolvedRef st) =
      absResolved (heap st) (resolvedRef st)\<lparr>ResolvedPlugins.routes := acc'\<rparr>" for acc'
    using l simInv_lengths(2) [OF s] by (simp add: absResolved_def layout_def)
qed

lemma good_roles:
  assumes g: "good h0 st" and w: "wfPluginRef h0 d"
  shows "simRes h0 (onHeap (stepRolesH d (length (roleDicts h0))) st)
           (liftR (stepRoles (absPlugin h0 d)) (absState st))"
proof (cases "PluginRef.roles d")
  case None
  with g show ?thesis
    by (simp add: stepRolesH_def onHeap_def simRes_def liftR_def andThen_def stepRoles_def
        absPlugin_def absState_def)
next
  case (Some a)
  let ?k = "length (roleDicts h0)"
  from g have s: "simInv h0 (heap st)" and l: "layout h0 (resolvedRef st)"
    by (simp_all add: good_def)
  note u = simInv_lengths(4) [OF s]
  from Some w have a: "a < length (roleDicts h0)"
    and v: "\<forall>pa \<in> snd ` set (roleDicts h0 ! a). pa < length (strArrays h0)"
    by (simp_all add: wfPluginRef_def inRange_def)
  from unchanged_nth(4) [OF u a] have e: "roleDicts (heap st) ! a = roleDicts h0 ! a" .
  note sim = mergeRolesH_sim [OF refl v simInv_rolesSim [OF s]]
  have pr: "Plugin.roles (absPlugin h0 d) = Some (absRoleDict h0 (roleDicts h0 ! a))"
    by (simp add: absPlugin_def Some)
  have rr: "ResolvedPlugins.roles (absResolved (heap st) (resolvedRef st)) =
      absRoleDict (heap st) (roleDicts (heap st) ! ?k)"
    using l by (simp add: absResolved_def layout_def)
  show ?thesis
  proof (cases "mergeRolesH ?k (roleDicts h0 ! a) (heap st)")
    case (Pair h' err)
    show ?thesis
    proof (cases err)
      case (Some e')
      with Pair sim \<open>PluginRef.roles d = Some a\<close> show ?thesis
        by (simp add: stepRolesH_def onHeap_def e simRes_def liftR_def andThen_def stepRoles_def pr
            absState_def rr)
    next
      case None
      with Pair sim have
        m: "mergeRoles (absRoleDict (heap st) (roleDicts (heap st) ! ?k)) (absRoleDict h0 (roleDicts h0 ! a)) =
              Inr (absRoleDict h' (roleDicts h' ! ?k))"
        and rs: "rolesSim h0 h'" and so: "sameOthers (heap st) h'"
        by simp_all
      from simInv_from_roles [OF s rs so] have "simInv h0 h'" .
      with g have "good h0 (st\<lparr>heap := h'\<rparr>)" by (rule good_heap_update)
      moreover have "absResolved h' (resolvedRef st) =
          (absResolved (heap st) (resolvedRef st))\<lparr>ResolvedPlugins.roles := absRoleDict h' (roleDicts h' ! ?k)\<rparr>"
        using so l by (simp add: absResolved_def sameOthers_def layout_def)
      then have "liftR (stepRoles (absPlugin h0 d)) (absState st) = Inr (absState (st\<lparr>heap := h'\<rparr>))"
        by (simp add: liftR_def stepRoles_def pr rr m andThen_def absState_def)
      ultimately show ?thesis
        using Pair None \<open>PluginRef.roles d = Some a\<close>
        by (simp add: stepRolesH_def onHeap_def e simRes_def)
    qed
  qed
qed

lemma good_resolveStepH:
  assumes g: "good h0 st" and wi: "wfInput h0 plugins" and p: "p \<in> set plugins"
  shows "simRes h0 (resolveStepH plugins st p)
           (resolveStep (inputPlugins h0 plugins) (absState st) (absPlugin h0 (descriptors h0 ! p)))"
proof -
  define d where "d = descriptors h0 ! p"
  define r where "r = resolvedRef st"
  from g have s: "simInv h0 (heap st)" and l: "layout h0 r"
    by (simp_all add: good_def r_def)
  from wi p have w: "wfPluginRef h0 d" by (simp add: wfInput_def d_def)
  have dd: "descriptors (heap st) ! p = d"
    by (simp add: d_def unchanged_nth(5) [OF simInv_lengths(4) [OF s]])
  from l have addr:
    "ResolvedRef.integrations r = length (objArrays h0)"
    "ResolvedRef.middleware r = length (objArrays h0) + 1"
    "ResolvedRef.permissions r = length (objDicts h0)"
    "ResolvedRef.actions r = length (objDicts h0) + 1"
    "ResolvedRef.routes r = length (objDicts h0) + 2"
    "ResolvedRef.roles r = length (roleDicts h0)"
    by (simp_all add: layout_def)
  have n: "Plugin.name (absPlugin h0 d) = PluginRef.name d"
    and a: "Plugin.auth (absPlugin h0 d) = PluginRef.auth d"
    by (simp_all add: absPlugin_def)
  note i = good_pushIntegrations [OF g w]
  have hooksStep: "simRes h0 (st5\<lparr>heap := stepHooksH d (ResolvedRef.hooks r) (heap st5)\<rparr>, None)
      (Inr ((absState st5)\<lparr>resolved := stepHooks (absPlugin h0 d) (resolved (absState st5))\<rparr>))"
    if "good h0 st5" for st5
    using good_stepHooksH [OF that l, of d] by (simp add: simRes_def)
  have routesStep: "simRes h0
      (onHeap (mergeFieldH plugins ''route'' Routes d (length (objDicts h0) + 2))
         (st4\<lparr>heap := pushFrom (length (objArrays h0) + 1) (PluginRef.middleware d) (heap st4)\<rparr>))
      (liftR (stepRoutes (inputPlugins h0 plugins) (absPlugin h0 d))
         ((absState st4)\<lparr>resolved := stepMiddleware (absPlugin h0 d) (resolved (absState st4))\<rparr>))"
    if "good h0 st4" for st4
    using good_pushMiddleware [OF that w] good_routes [OF _ wi w] by metis
  have authStep: "simRes h0
      (stepAuthH d (st\<lparr>heap := pushFrom (length (objArrays h0)) (PluginRef.integrations d) (heap st)\<rparr>))
      (stepAuth (absPlugin h0 d)
         ((absState st)\<lparr>resolved := stepIntegrations (absPlugin h0 d) (resolved (absState st))\<rparr>))"
    using i good_stepAuthH [OF _ n a] by metis
  show ?thesis
    unfolding resolveStepH_def Let_def dd r_def [symmetric] addr resolveStep_phases d_def [symmetric]
    apply (rule simRes_thenH [OF authStep])
    apply (rule simRes_thenH [OF good_permissions [OF _ wi w]], assumption)
    apply (rule simRes_thenH [OF good_roles [OF _ w]], assumption)
    apply (rule simRes_thenH [OF good_actions [OF _ wi w]], assumption)
    apply (rule simRes_thenH [OF routesStep], assumption)
    apply (rule hooksStep, assumption)
    done
qed

lemma good_resolveLoopH:
  assumes wi: "wfInput h0 plugins"
  shows "good h0 st \<Longrightarrow> set ps \<subseteq> set plugins \<Longrightarrow>
     simRes h0 (resolveLoopH plugins st ps)
       (resolveLoop (inputPlugins h0 plugins) (absState st) (inputPlugins h0 ps))"
proof (induction ps arbitrary: st)
  case Nil
  then show ?case by (simp add: simRes_def inputPlugins_def)
next
  case (Cons p ps)
  from Cons.prems(2) have p: "p \<in> set plugins" and ps: "set ps \<subseteq> set plugins" by simp_all
  note step = good_resolveStepH [OF Cons.prems(1) wi p]
  have ip: "inputPlugins h0 (p # ps) = absPlugin h0 (descriptors h0 ! p) # inputPlugins h0 ps"
    by (simp add: inputPlugins_def)
  show ?case
  proof (cases "resolveStepH plugins st p")
    case (Pair st' err)
    show ?thesis
    proof (cases err)
      case (Some e)
      with Pair step show ?thesis by (simp add: simRes_def ip)
    next
      case None
      with Pair step have 1: "resolveStep (inputPlugins h0 plugins) (absState st)
          (absPlugin h0 (descriptors h0 ! p)) = Inr (absState st')" and 2: "good h0 st'"
        by (simp_all add: simRes_def)
      from Cons.IH [OF 2 ps] Pair None 1 show ?thesis by (simp add: ip)
    qed
  qed
qed

lemma good_initStateH: "good h (initStateH h)"
  by (simp add: good_def simInv_def layout_def initStateH_def allocObjArray_def allocObjDict_def
      allocRoleDict_def unchanged_def nth_append)

lemma absState_initStateH: "absState (initStateH h) = initState"
  by (simp add: absState_def absResolved_def absRoleDict_def initStateH_def initState_def
      allocObjArray_def allocObjDict_def allocRoleDict_def nth_append)

text \<open>
  The two models are the same program: for a store in which the references of the
  descriptors are addresses of the store, the merge over the store ends with the error, or
  with the references to the configuration, that the merge over values gives for the
  descriptors read from the store.
\<close>

lemma resolvePluginsH_refines:
  assumes "wfInput h plugins"
  shows "map_sum id (absResolved (fst (resolvePluginsH h plugins))) (snd (resolvePluginsH h plugins)) =
     resolvePlugins (inputPlugins h plugins)"
proof -
  from good_resolveLoopH [OF assms good_initStateH, of plugins]
  have sim: "simRes h (resolveLoopH plugins (initStateH h) plugins)
      (resolveLoop (inputPlugins h plugins) initState (inputPlugins h plugins))"
    by (simp add: absState_initStateH)
  show ?thesis
  proof (cases "resolveLoopH plugins (initStateH h) plugins")
    case (Pair st err)
    with sim show ?thesis
      by (cases err) (simp_all add: simRes_def resolvePluginsH_def resolvePlugins_def absState_def)
  qed
qed

lemma inputPlugins_unchanged:
  assumes "unchanged h0 h" and "wfInput h0 plugins"
  shows "inputPlugins h plugins = inputPlugins h0 plugins"
  unfolding inputPlugins_def
proof (rule map_cong [OF refl])
  fix p assume "p \<in> set plugins"
  with assms(2) have "wfPluginRef h0 (descriptors h0 ! p)" by (simp add: wfInput_def)
  from absPlugin_unchanged [OF assms(1) this] unchanged_nth(5) [OF assms(1)]
  show "absPlugin h (descriptors h ! p) = absPlugin h0 (descriptors h0 ! p)" by simp
qed

section \<open>The claims\<close>

subsection \<open>C1: descriptors without overlap\<close>

text \<open>
  C1 says that a sequence of descriptors in which no auth provider, permission slug, action
  name or route key comes from more than one descriptor resolves without a conflict. The
  code tests \<^verbatim>\<open>resolved.permissions[slug]\<close> on an accumulator that starts as
  \<^verbatim>\<open>{}\<close>, so a slug that names a property of \<^verbatim>\<open>Object.prototype\<close> is taken
  for one that is already registered: a single descriptor with the one permission
  \<^verbatim>\<open>constructor\<close> raises a conflict between the plugin and \<^verbatim>\<open>engine config\<close>.
\<close>

theorem inherited_permission_conflict:
  "resolvePlugins [(plugin0 ''A'')\<lparr>permissions := Some [(''constructor'', Opaque 1)]\<rparr>] =
     Inl (PluginConflictError ''permission'' ''constructor'' ''engine config'' ''A'')"
  by code_simp

subsection \<open>C2: two descriptors supply auth\<close>

text \<open>
  C2 as stated: whenever two descriptors supply \<^verbatim>\<open>auth\<close>, the auth conflict is
  raised. It is not when an earlier descriptor already fails: in \<open>[exA, exB, exC]\<close> both
  \<open>exA\<close> and \<open>exC\<close> supply auth, and the merge stops at \<open>exB\<close> with the permission
  conflict on \<^verbatim>\<open>p1\<close>.
\<close>

theorem auth_conflict_preempted:
  "auth exA \<noteq> None \<and> auth exC \<noteq> None \<and>
   resolvePlugins [exA, exB, exC] = Inl (PluginConflictError ''permission'' ''p1'' ''A'' ''B'') \<and>
   resolvePlugins [exA, exB, exC] \<noteq> Inl (PluginConflictError ''auth'' ''auth'' ''A'' ''C'')"
proof -
  have "auth exA \<noteq> None" and "auth exC \<noteq> None"
    by (simp_all add: example_defs)
  moreover have "resolvePlugins [exA, exB, exC] =
      Inl (PluginConflictError ''permission'' ''p1'' ''A'' ''B'')"
    by code_simp
  moreover have "resolvePlugins [exA, exB, exC] \<noteq>
      Inl (PluginConflictError ''auth'' ''auth'' ''A'' ''C'')"
    by code_simp
  ultimately show ?thesis by blast
qed

text \<open>
  C2, amended: when \<open>p\<close> is the first descriptor that supplies auth, \<open>q\<close> the second,
  and the descriptors before \<open>q\<close> resolve on their own, then \<^verbatim>\<open>resolvePlugins\<close>
  raises the conflict of kind \<^verbatim>\<open>auth\<close> and key \<^verbatim>\<open>auth\<close> whose first owner is the
  name of \<open>p\<close> and whose second owner is the name of \<open>q\<close>, whatever follows \<open>q\<close>.
\<close>

theorem auth_conflict_second_supplier:
  assumes "\<forall>x \<in> set pre1. auth x = None" and "auth p \<noteq> None"
    and "\<forall>x \<in> set pre2. auth x = None" and "auth q \<noteq> None"
    and "resolvePlugins (pre1 @ p # pre2) = Inr r"
  shows "resolvePlugins (pre1 @ p # pre2 @ q # rest) =
     Inl (PluginConflictError ''auth'' ''auth'' (name p) (name q))"
proof -
  let ?pre = "pre1 @ p # pre2"
  let ?all = "pre1 @ p # pre2 @ q # rest"
  from assms(5) obtain st0 where "resolveLoop ?pre initState ?pre = Inr st0"
    unfolding resolvePlugins_Inr_iff by blast
  from resolveLoop_success_any [OF roleInv_init this]
  obtain st1 where l: "resolveLoop ?all initState ?pre = Inr st1" by blast
  have "authors ?pre = [p]"
    using assms(1-3) by (simp add: authors_def)
  with resolveLoop_auth [OF l]
  have a: "ResolvedPlugins.auth (resolved st1) = auth p" and s: "authSource st1 = Some (name p)"
    by simp_all
  from a assms(2) have "ResolvedPlugins.auth (resolved st1) \<noteq> None" by simp
  from resolveStep_auth_conflict [OF this assms(4), of ?all] s
  have "resolveStep ?all st1 q = Inl (PluginConflictError ''auth'' ''auth'' (name p) (name q))"
    by simp
  moreover have "?all = ?pre @ q # rest" by simp
  ultimately show ?thesis
    using l unfolding resolvePlugins_def
    by (simp only: resolveLoop_append resolveLoop.simps sum.case)
qed

theorem auth_conflict_second_supplier_witness:
  "auth exA \<noteq> None \<and> auth exC \<noteq> None \<and> auth exN = None \<and>
   (\<exists>r. resolvePlugins ([] @ exA # [exN]) = Inr r) \<and>
   resolvePlugins ([] @ exA # [exN] @ exC # [exB]) =
     Inl (PluginConflictError ''auth'' ''auth'' (name exA) (name exC))"
proof -
  have h1: "\<forall>x \<in> set []. auth x = None" by simp
  have h2: "auth exA \<noteq> None" by (simp add: example_defs)
  have n: "auth exN = None" by (simp add: example_defs)
  then have h3: "\<forall>x \<in> set [exN]. auth x = None" by simp
  have h4: "auth exC \<noteq> None" by (simp add: example_defs)
  have "case resolvePlugins ([] @ exA # [exN]) of Inr r \<Rightarrow> True | Inl e \<Rightarrow> False"
    by code_simp
  then obtain r where h5: "resolvePlugins ([] @ exA # [exN]) = Inr r"
    by (auto split: sum.splits)
  from auth_conflict_second_supplier [OF h1 h2 h3 h4 h5, of "[exB]"] h2 n h4 h5
  show ?thesis by blast
qed

subsection \<open>C3: roles are merged by ordered union\<close>

text \<open>
  C3: in a resolved configuration the slugs of every role are the slugs of all the lists
  that the descriptors gave for that role, in the order in which they are first seen and
  each one once; \<open>roleLists ps role\<close> is the concatenation of those lists in descriptor
  order, and \<open>firstSeen\<close> keeps the first occurrence of every element. A role for which
  some slug was given has an entry in \<^verbatim>\<open>resolved.roles\<close> with exactly this sequence. In particular, when
  \<open>a\<close> gives \<^verbatim>\<open>editor\<close> the slugs x, y, a later \<open>b\<close> gives y, z and nobody
  else names the role, the entry is x, y, z. Merging roles never raises a
  \<^verbatim>\<open>PluginConflictError\<close>.
\<close>

theorem roles_ordered_union:
  "(resolvePlugins ps = Inr r \<longrightarrow>
      slugsOf (ResolvedPlugins.roles r) role = firstSeen (roleLists ps role) \<and>
      distinct (slugsOf (ResolvedPlugins.roles r) role) \<and>
      set (slugsOf (ResolvedPlugins.roles r) role) = set (roleLists ps role) \<and>
      (roleLists ps role \<noteq> [] \<longrightarrow>
         map_of (ResolvedPlugins.roles r) role = Some (firstSeen (roleLists ps role)))) \<and>
   (resolvePlugins (xs @ a # ys @ b # zs) = Inr r' \<longrightarrow>
      listsFor ''editor'' (roleEntries a) = [''x'', ''y''] \<longrightarrow>
      listsFor ''editor'' (roleEntries b) = [''y'', ''z''] \<longrightarrow>
      (\<forall>p \<in> set (xs @ ys @ zs). listsFor ''editor'' (roleEntries p) = []) \<longrightarrow>
      map_of (ResolvedPlugins.roles r') ''editor'' = Some [''x'', ''y'', ''z'']) \<and>
   (mergeRoles rs entries = Inl e \<longrightarrow> errName e \<noteq> ''PluginConflictError'')"
proof (intro conjI impI)
  assume ok: "resolvePlugins ps = Inr r"
  from resolvePlugins_roles(1) [OF ok]
  show u: "slugsOf (ResolvedPlugins.roles r) role = firstSeen (roleLists ps role)" .
  show "distinct (slugsOf (ResolvedPlugins.roles r) role)" by (simp add: u)
  show "set (slugsOf (ResolvedPlugins.roles r) role) = set (roleLists ps role)" by (simp add: u)
  assume "roleLists ps role \<noteq> []"
  with ok show "map_of (ResolvedPlugins.roles r) role = Some (firstSeen (roleLists ps role))"
    by (rule resolvePlugins_role_entry)
next
  assume ok: "resolvePlugins (xs @ a # ys @ b # zs) = Inr r'"
    and a: "listsFor ''editor'' (roleEntries a) = [''x'', ''y'']"
    and b: "listsFor ''editor'' (roleEntries b) = [''y'', ''z'']"
    and o: "\<forall>p \<in> set (xs @ ys @ zs). listsFor ''editor'' (roleEntries p) = []"
  have e: "concat (map (\<lambda>p. listsFor ''editor'' (roleEntries p)) qs) = []"
    if "set qs \<subseteq> set (xs @ ys @ zs)" for qs
    using that o by (induction qs) auto
  have "set xs \<subseteq> set (xs @ ys @ zs)" and "set ys \<subseteq> set (xs @ ys @ zs)"
    and "set zs \<subseteq> set (xs @ ys @ zs)" by auto
  then have "roleLists (xs @ a # ys @ b # zs) ''editor'' = [''x'', ''y'', ''y'', ''z'']"
    by (simp add: roleLists_def a b e)
  with resolvePlugins_role_entry [OF ok, of "''editor''"]
  show "map_of (ResolvedPlugins.roles r') ''editor'' = Some [''x'', ''y'', ''z'']"
    by simp
next
  assume "mergeRoles rs entries = Inl e"
  then have "e = TypeError" by (rule mergeRoles_Inl)
  then show "errName e \<noteq> ''PluginConflictError''" by (simp add: TypeError_def)
qed

theorem roles_ordered_union_witness:
  "\<exists>r. resolvePlugins ([] @ exEditorA # [] @ exEditorB # []) = Inr r \<and>
     map_of (ResolvedPlugins.roles r) ''editor'' = Some [''x'', ''y'', ''z''] \<and>
     slugsOf (ResolvedPlugins.roles r) ''editor'' =
       firstSeen (roleLists ([] @ exEditorA # [] @ exEditorB # []) ''editor'') \<and>
     mergeRoles [] [(''constructor'', [''x''])] = Inl TypeError \<and>
     errName TypeError \<noteq> ''PluginConflictError''"
proof -
  let ?ps = "[] @ exEditorA # [] @ exEditorB # []"
  have "case resolvePlugins ?ps of Inr r \<Rightarrow> True | Inl e \<Rightarrow> False"
    by code_simp
  then obtain r where ok: "resolvePlugins ?ps = Inr r"
    by (auto split: sum.splits)
  have a: "listsFor ''editor'' (roleEntries exEditorA) = [''x'', ''y'']"
    by (simp add: role_example_defs roleEntries_def listsFor_def)
  have b: "listsFor ''editor'' (roleEntries exEditorB) = [''y'', ''z'']"
    by (simp add: role_example_defs roleEntries_def listsFor_def)
  have o: "\<forall>p \<in> set ([] @ [] @ []). listsFor ''editor'' (roleEntries p) = []"
    by simp
  have t: "mergeRoles [] [(''constructor'', [''x''])] = Inl TypeError"
    by code_simp
  from roles_ordered_union [of ?ps r "''editor''" "[]" exEditorA "[]" exEditorB "[]" r
      "[]" "[(''constructor'', [''x''])]" TypeError] ok a b o t
  show ?thesis by blast
qed

subsection \<open>C4: the ownership tracer\<close>

text \<open>
  C4 as stated gives the sentinel as \<^verbatim>\<open>host configuration\<close>. The string that
  \<^verbatim>\<open>findOwner\<close> returns when no owner is found is \<^verbatim>\<open>engine config\<close>.
\<close>

theorem findOwner_sentinel:
  "findOwner [exA] Routes ''GET /x'' ''B'' = ''engine config'' \<and>
   findOwner [exA] Routes ''GET /x'' ''B'' \<noteq> ''host configuration''"
proof -
  have "findOwner [exA] Routes ''GET /x'' ''B'' = ''engine config''"
    by code_simp
  then show ?thesis by simp
qed

text \<open>
  C4, amended: for a key that is not the name of a property of \<^verbatim>\<open>Object.prototype\<close>,
  \<^verbatim>\<open>findOwner\<close> looks at the descriptors in their order up to, and not including, the
  first one whose name is the current name, and returns the name of the first of them
  whose mapping for the field contains the key; when there is none it returns
  \<^verbatim>\<open>engine config\<close>. The right-hand side \<open>firstOwner\<close> says this with
  \<open>takeWhile\<close> and \<open>find\<close>.
\<close>

theorem findOwner_scan:
  "key \<notin> set objectPrototypeKeys \<Longrightarrow>
     findOwner plugins fld key currentName = firstOwner plugins fld key currentName"
proof (induction plugins)
  case Nil
  show ?case by (simp add: firstOwner_def)
next
  case (Cons p plugins)
  from Cons.prems have h: "hasProperty obj key = (key \<in> fst ` set obj)" for obj :: "opaque dict"
    by (simp add: hasProperty_def hasOwn_iff)
  from Cons show ?case
    by (auto simp: firstOwner_def containsKey_def entriesOf_def h split: option.splits)
qed

theorem findOwner_scan_witness:
  "''p1'' \<notin> set objectPrototypeKeys \<and>
   findOwner [exN, exA, exB, exA] Permissions ''p1'' ''B'' = ''A'' \<and>
   firstOwner [exN, exA, exB, exA] Permissions ''p1'' ''B'' = ''A''"
proof -
  have k: "''p1'' \<notin> set objectPrototypeKeys" by (simp add: objectPrototypeKeys_def)
  have "findOwner [exN, exA, exB, exA] Permissions ''p1'' ''B'' = ''A''" by code_simp
  with findOwner_scan [OF k, of "[exN, exA, exB, exA]" Permissions "''B''"] k
  show ?thesis by simp
qed

subsection \<open>C5: the conflict signal and its message\<close>

text \<open>
  C5 as stated: the first owner that a conflict names is the descriptor that registered
  the key first. \<^verbatim>\<open>findOwner\<close> leaves its loop at the first descriptor that bears the
  name of the current one, so the descriptors after a namesake are never looked at: in
  \<open>[exN, exB, exN2]\<close> the slug \<^verbatim>\<open>p1\<close> is registered by \<open>exB\<close>, the descriptor
  \<open>exN2\<close>, named \<^verbatim>\<open>N\<close> like \<open>exN\<close>, collides on it, and the conflict names
  \<^verbatim>\<open>engine config\<close>, not \<^verbatim>\<open>B\<close>.
\<close>

theorem first_registrant_not_reported:
  "resolvePlugins [exN, exB, exN2] =
     Inl (PluginConflictError ''permission'' ''p1'' ''engine config'' ''N'') \<and>
   find (containsKey Permissions ''p1'') [exN, exB, exN2] = Some exB \<and>
   name exB = ''B'' \<and>
   resolvePlugins [exN, exB, exN2] \<noteq> Inl (PluginConflictError ''permission'' ''p1'' ''B'' ''N'')"
proof -
  have "resolvePlugins [exN, exB, exN2] =
      Inl (PluginConflictError ''permission'' ''p1'' ''engine config'' ''N'')"
    by code_simp
  moreover have "find (containsKey Permissions ''p1'') [exN, exB, exN2] = Some exB"
    by (simp add: containsKey_def entriesOf_def exN_def exB_def plugin0_def)
  moreover have "name exB = ''B''"
    by (simp add: exB_def plugin0_def)
  moreover have "resolvePlugins [exN, exB, exN2] \<noteq>
      Inl (PluginConflictError ''permission'' ''p1'' ''B'' ''N'')"
    by code_simp
  ultimately show ?thesis by (intro conjI)
qed

text \<open>
  C5, amended: every error that \<^verbatim>\<open>resolvePlugins\<close> raises, the \<^verbatim>\<open>TypeError\<close> of
  the roles block apart, is a \<^verbatim>\<open>PluginConflictError\<close>. It stores its message and nothing
  else, and the message is the text of the template, word for word, for a kind, a key, a
  first owner and a second owner of which the following holds. The second owner is the
  name of the descriptor \<open>p\<close> that triggered the conflict: the descriptors before
  \<open>p\<close> resolve on their own, and together with \<open>p\<close> they raise this error. For the
  kind \<^verbatim>\<open>auth\<close> the key is \<^verbatim>\<open>auth\<close>, \<open>p\<close> supplies auth, and the first owner is the
  name of the first descriptor before \<open>p\<close> that supplies auth. Otherwise the kind is
  that of one of the three mappings, the key is a key of that mapping of \<open>p\<close>, and no
  key listed before it there was registered by a descriptor before \<open>p\<close>. When the key
  does not name a property of \<^verbatim>\<open>Object.prototype\<close>, the first owner is the result of
  the scan \<open>firstOwner\<close> of C4; when moreover the mapping of \<open>p\<close> lists no key
  twice, a descriptor before \<open>p\<close> did register the key; and when in addition no
  descriptor before \<open>p\<close> bears the name of \<open>p\<close>, the first owner is the name of
  the first descriptor that registered the key.
\<close>

theorem conflict_signal_message:
  assumes "resolvePlugins ps = Inl e" and "e \<noteq> TypeError"
  shows \<open>\<exists>pre p post r kind key ownerA.
     ps = pre @ p # post \<and> resolvePlugins pre = Inr r \<and> resolvePlugins (pre @ [p]) = Inl e \<and>
     errName e = ''PluginConflictError'' \<and>
     e = PluginConflictError kind key ownerA (name p) \<and>
     message e =
       ''Plugin conflict: '' @ kind @ '' "'' @ key @ ''" is defined by both "'' @ ownerA
         @ ''" and "'' @ name p @ ''". Each '' @ kind @ '' must be provided by exactly one plugin.'' \<and>
     kind \<in> {''auth'', ''permission'', ''action'', ''route''} \<and>
     (kind = ''auth'' \<and> key = ''auth'' \<and> auth p \<noteq> None \<and>
        (\<exists>q. find (\<lambda>q. auth q \<noteq> None) pre = Some q \<and> ownerA = name q) \<or>
      (\<exists>fld es1 v es2.
         kind = kindOf fld \<and> entriesOf fld p = es1 @ (key, v) # es2 \<and>
         (\<forall>k \<in> fst ` set es1. \<forall>q \<in> set pre. \<not> containsKey fld k q) \<and>
         (key \<notin> set objectPrototypeKeys \<longrightarrow>
            ownerA = firstOwner ps fld key (name p) \<and>
            (distinct (map fst (entriesOf fld p)) \<longrightarrow>
               (\<exists>q \<in> set pre. containsKey fld key q) \<and>
               (name p \<notin> name ` set pre \<longrightarrow>
                  (\<exists>q. find (containsKey fld key) pre = Some q \<and> ownerA = name q))))))\<close>
proof -
  from assms(1) have "resolveLoop ps initState ps = Inl e"
    by (auto simp: resolvePlugins_def split: sum.splits)
  from resolveLoop_Inl [OF this] obtain pre p post st1 where
    ps: "ps = pre @ p # post" and l: "resolveLoop ps initState pre = Inr st1"
    and s: "resolveStep ps st1 p = Inl e"
    by blast
  from resolveLoop_success_any [OF roleInv_init l] obtain st2 where
    "resolveLoop pre initState pre = Inr st2" by blast
  then have a1: "resolvePlugins pre = Inr (resolved st2)"
    by (simp add: resolvePlugins_def)
  have "resolveLoop ((pre @ [p]) @ post) initState (pre @ [p]) =
      resolveLoop (pre @ [p]) initState (pre @ [p])"
  proof (rule resolveLoop_owner_cong)
    fix q fld k assume "q \<in> set (pre @ [p])"
    then have "name q \<in> name ` set (pre @ [p])" by (rule imageI)
    then show "findOwner ((pre @ [p]) @ post) fld k (name q) = findOwner (pre @ [p]) fld k (name q)"
      by (rule findOwner_append)
  qed
  moreover from l s have "resolveLoop ps initState (pre @ [p]) = Inl e"
    by (simp add: resolveLoop_append)
  ultimately have a2: "resolvePlugins (pre @ [p]) = Inl e"
    by (simp add: resolvePlugins_def ps)
  define A where "A kind key ownerA \<longleftrightarrow>
     kind = ''auth'' \<and> key = ''auth'' \<and> auth p \<noteq> None \<and>
        (\<exists>q. find (\<lambda>q. auth q \<noteq> None) pre = Some q \<and> ownerA = name q)"
    for kind key ownerA :: string
  define F where "F kind key ownerA \<longleftrightarrow>
     (\<exists>fld es1 v es2.
         kind = kindOf fld \<and> entriesOf fld p = es1 @ (key, v) # es2 \<and>
         (\<forall>k \<in> fst ` set es1. \<forall>q \<in> set pre. \<not> containsKey fld k q) \<and>
         (key \<notin> set objectPrototypeKeys \<longrightarrow>
            ownerA = firstOwner ps fld key (name p) \<and>
            (distinct (map fst (entriesOf fld p)) \<longrightarrow>
               (\<exists>q \<in> set pre. containsKey fld key q) \<and>
               (name p \<notin> name ` set pre \<longrightarrow>
                  (\<exists>q. find (containsKey fld key) pre = Some q \<and> ownerA = name q)))))"
    for kind key ownerA :: string
  define K where "K = {''auth'', ''permission'', ''action'', ''route''}"
  have kK: "kindOf fld \<in> K" for fld by (cases fld) (simp_all add: K_def)
  have field: "\<exists>kind key ownerA. e = PluginConflictError kind key ownerA (name p) \<and> kind \<in> K \<and>
      (A kind key ownerA \<or> F kind key ownerA)"
    if m: "mergeEntries ps (kindOf fld) fld (name p) (concat (map (entriesOf fld) pre))
             (entriesOf fld p) = Inl e" for fld
  proof -
    from mergeEntries_conflict [OF m ps] obtain key ownerA where
      e: "e = PluginConflictError (kindOf fld) key ownerA (name p)"
      and f: "\<exists>es1 v es2. entriesOf fld p = es1 @ (key, v) # es2 \<and>
         (\<forall>k \<in> fst ` set es1. \<forall>q \<in> set pre. \<not> containsKey fld k q) \<and>
         (key \<notin> set objectPrototypeKeys \<longrightarrow>
            ownerA = firstOwner ps fld key (name p) \<and>
            (distinct (map fst (entriesOf fld p)) \<longrightarrow>
               (\<exists>q \<in> set pre. containsKey fld key q) \<and>
               (name p \<notin> name ` set pre \<longrightarrow>
                  (\<exists>q. find (containsKey fld key) pre = Some q \<and> ownerA = name q))))"
      by blast
    from f have "F (kindOf fld) key ownerA" unfolding F_def by blast
    with e kK [of fld] show ?thesis by blast
  qed
  note d = resolveLoop_init_dicts [OF l]
  from resolveStep_Inl_field [OF s assms(2)] consider
    (au) "auth p \<noteq> None" "ResolvedPlugins.auth (resolved st1) \<noteq> None"
      "e = PluginConflictError ''auth'' ''auth''
           (case authSource st1 of Some s \<Rightarrow> s | None \<Rightarrow> ''undefined'') (name p)"
    | (pe) "mergeEntries ps (kindOf Permissions) Permissions (name p)
           (concat (map (entriesOf Permissions) pre)) (entriesOf Permissions p) = Inl e"
    | (ac) "mergeEntries ps (kindOf Actions) Actions (name p)
           (concat (map (entriesOf Actions) pre)) (entriesOf Actions p) = Inl e"
    | (ro) "mergeEntries ps (kindOf Routes) Routes (name p)
           (concat (map (entriesOf Routes) pre)) (entriesOf Routes p) = Inl e"
    unfolding d by blast
  then have "\<exists>kind key ownerA. e = PluginConflictError kind key ownerA (name p) \<and> kind \<in> K \<and>
      (A kind key ownerA \<or> F kind key ownerA)"
  proof cases
    case au
    from resolveLoop_auth [OF l] au(2) obtain q qs where
      q: "authors pre = q # qs" and src: "authSource st1 = Some (name q)"
      by (cases "authors pre") (simp_all add: initState_def)
    from q have "find (\<lambda>q. auth q \<noteq> None) pre = Some q"
      by (simp add: find_filter_hd [of _ pre] authors_def)
    with au(1) have "A ''auth'' ''auth'' (name q)" by (simp add: A_def)
    moreover from au(3) src have "e = PluginConflictError ''auth'' ''auth'' (name q) (name p)"
      by simp
    moreover have "''auth'' \<in> K" by (simp add: K_def)
    ultimately show ?thesis by blast
  next
    case pe then show ?thesis by (rule field)
  next
    case ac then show ?thesis by (rule field)
  next
    case ro then show ?thesis by (rule field)
  qed
  then obtain kind key ownerA where
    e: "e = PluginConflictError kind key ownerA (name p)" and k: "kind \<in> K"
    and rel: "A kind key ownerA \<or> F kind key ownerA"
    by blast
  from e have n: "errName e = ''PluginConflictError''"
    by (simp add: PluginConflictError_def)
  from e have msg: \<open>message e =
       ''Plugin conflict: '' @ kind @ '' "'' @ key @ ''" is defined by both "'' @ ownerA
         @ ''" and "'' @ name p @ ''". Each '' @ kind @ '' must be provided by exactly one plugin.''\<close>
    by (simp add: PluginConflictError_def)
  from ps a1 a2 n e msg k rel show ?thesis
    unfolding A_def F_def K_def by (intro exI conjI)
qed

theorem conflict_signal_message_witness:
  \<open>resolvePlugins [exN, exA, exD, exC] = Inl (PluginConflictError ''permission'' ''p1'' ''A'' ''D'') \<and>
   PluginConflictError ''permission'' ''p1'' ''A'' ''D'' \<noteq> TypeError \<and>
   message (PluginConflictError ''permission'' ''p1'' ''A'' ''D'') =
     ''Plugin conflict: permission "p1" is defined by both "A" and "D". Each permission must be provided by exactly one plugin.'' \<and>
   ''p1'' \<notin> set objectPrototypeKeys \<and>
   distinct (map fst (entriesOf Permissions exD)) \<and>
   name exD \<notin> name ` set [exN, exA] \<and>
   (\<exists>pre p post r kind key ownerA.
      [exN, exA, exD, exC] = pre @ p # post \<and> pre = [exN, exA] \<and> p = exD \<and>
      resolvePlugins pre = Inr r \<and>
      kind = ''permission'' \<and> key = ''p1'' \<and> ownerA = ''A'' \<and>
      entriesOf Permissions p = [(''p0'', Opaque 7), (key, Opaque 8)] \<and>
      ownerA = firstOwner [exN, exA, exD, exC] Permissions key (name p) \<and>
      find (containsKey Permissions key) pre = Some exA \<and>
      PluginConflictError ''permission'' ''p1'' ''A'' ''D'' =
        PluginConflictError kind key ownerA (name p)) \<and>
   resolvePlugins [exA, exN, exC] = Inl (PluginConflictError ''auth'' ''auth'' ''A'' ''C'') \<and>
   (\<exists>pre p post r kind key ownerA.
      [exA, exN, exC] = pre @ p # post \<and> pre = [exA, exN] \<and> p = exC \<and>
      resolvePlugins pre = Inr r \<and>
      kind = ''auth'' \<and> key = ''auth'' \<and> ownerA = ''A'' \<and>
      find (\<lambda>q. auth q \<noteq> None) pre = Some exA \<and>
      PluginConflictError ''auth'' ''auth'' ''A'' ''C'' =
        PluginConflictError kind key ownerA (name p))\<close>
proof -
  define E where "E = PluginConflictError ''permission'' ''p1'' ''A'' ''D''"
  let ?ps = "[exN, exA, exD, exC]"
  have r: "resolvePlugins ?ps = Inl E" unfolding E_def by code_simp
  have nt: "E \<noteq> TypeError" by (simp add: E_def PluginConflictError_def TypeError_def)
  have m: \<open>message E =
     ''Plugin conflict: permission "p1" is defined by both "A" and "D". Each permission must be provided by exactly one plugin.''\<close>
    by (simp add: E_def PluginConflictError_def)
  have k: "''p1'' \<notin> set objectPrototypeKeys" by (simp add: objectPrototypeKeys_def)
  have eP: "entriesOf Permissions exD = [(''p0'', Opaque 7), (''p1'', Opaque 8)]"
    and eA: "entriesOf Actions exD = []" and eR: "entriesOf Routes exD = []"
    by (simp_all add: entriesOf_def exD_def plugin0_def)
  have dB: "distinct (map fst (entriesOf Permissions exD))" by (simp add: eP)
  have nB: "name exD \<notin> name ` set [exN, exA]" by (simp add: example_defs exD_def)
  have aB: "auth exD = None" by (simp add: exD_def plugin0_def)
  have nm: "name exD = ''D''" "name exA = ''A''" by (simp_all add: example_defs exD_def)
  have n0: "\<not> (\<exists>q \<in> set [exN, exA]. containsKey Permissions ''p0'' q)"
    and k0: "''p0'' \<notin> set objectPrototypeKeys"
    by (simp_all add: containsKey_def entriesOf_def example_defs objectPrototypeKeys_def)
  have f1: "resolvePlugins [exN] \<noteq> Inl E" unfolding E_def by code_simp
  have f2: "resolvePlugins [exN, exA] \<noteq> Inl E" unfolding E_def by code_simp
  have f3: "resolvePlugins [exN, exA, exD] = Inl E" unfolding E_def by code_simp
  have fnd: "find (containsKey Permissions ''p1'') [exN, exA] = Some exA"
    by (simp add: containsKey_def entriesOf_def example_defs)
  from conflict_signal_message [OF r nt] obtain pre p post r0 kind key ownerA where
    d: "?ps = pre @ p # post" and a1: "resolvePlugins pre = Inr r0"
    and a2: "resolvePlugins (pre @ [p]) = Inl E"
    and e: "E = PluginConflictError kind key ownerA (name p)"
    and rel: "kind = ''auth'' \<and> key = ''auth'' \<and> auth p \<noteq> None \<and>
        (\<exists>q. find (\<lambda>q. auth q \<noteq> None) pre = Some q \<and> ownerA = name q) \<or>
      (\<exists>fld es1 v es2.
         kind = kindOf fld \<and> entriesOf fld p = es1 @ (key, v) # es2 \<and>
         (\<forall>k \<in> fst ` set es1. \<forall>q \<in> set pre. \<not> containsKey fld k q) \<and>
         (key \<notin> set objectPrototypeKeys \<longrightarrow>
            ownerA = firstOwner ?ps fld key (name p) \<and>
            (distinct (map fst (entriesOf fld p)) \<longrightarrow>
               (\<exists>q \<in> set pre. containsKey fld key q) \<and>
               (name p \<notin> name ` set pre \<longrightarrow>
                  (\<exists>q. find (containsKey fld key) pre = Some q \<and> ownerA = name q)))))"
    by (elim exE conjE)
  from d consider "pre = []" "p = exN" | "pre = [exN]" "p = exA"
    | "pre = [exN, exA]" "p = exD" | "pre = [exN, exA, exD]" "p = exC"
    by (auto simp: Cons_eq_append_conv)
  then have "pre = [exN, exA] \<and> p = exD"
  proof cases
    case 1 with a2 f1 show ?thesis by simp
  next
    case 2 with a2 f2 show ?thesis by simp
  next
    case 3 then show ?thesis by simp
  next
    case 4 with a1 f3 show ?thesis by simp
  qed
  then have pp: "pre = [exN, exA]" "p = exD" by simp_all
  define R where "R \<longleftrightarrow>
      (\<exists>fld es1 v es2.
         kind = kindOf fld \<and> entriesOf fld p = es1 @ (key, v) # es2 \<and>
         (\<forall>k \<in> fst ` set es1. \<forall>q \<in> set pre. \<not> containsKey fld k q) \<and>
         (key \<notin> set objectPrototypeKeys \<longrightarrow>
            ownerA = firstOwner ?ps fld key (name p) \<and>
            (distinct (map fst (entriesOf fld p)) \<longrightarrow>
               (\<exists>q \<in> set pre. containsKey fld key q) \<and>
               (name p \<notin> name ` set pre \<longrightarrow>
                  (\<exists>q. find (containsKey fld key) pre = Some q \<and> ownerA = name q)))))"
  from aB have na: "auth p = None" by (simp add: pp)
  from rel have "auth p \<noteq> None \<or> R" unfolding R_def by (elim disjE conjE) simp_all
  with na have R by simp
  then obtain fld es1 v es2 where
    kf: "kind = kindOf fld" and es0: "entriesOf fld p = es1 @ (key, v) # es2"
    and own0: "key \<notin> set objectPrototypeKeys \<longrightarrow>
            ownerA = firstOwner ?ps fld key (name p) \<and>
            (distinct (map fst (entriesOf fld p)) \<longrightarrow>
               (\<exists>q \<in> set pre. containsKey fld key q) \<and>
               (name p \<notin> name ` set pre \<longrightarrow>
                  (\<exists>q. find (containsKey fld key) pre = Some q \<and> ownerA = name q)))"
    unfolding R_def by (elim exE conjE)
  note es = es0 [unfolded pp] and own = own0 [unfolded pp]
  from es eA eR have fl: "fld = Permissions" by (cases fld) simp_all
  with es eP have "key = ''p0'' \<or> key = ''p1'' \<and> es1 = [(''p0'', Opaque 7)]"
    by (auto simp: Cons_eq_append_conv)
  moreover from own k0 dB n0 have "key \<noteq> ''p0''" unfolding fl by blast
  ultimately have ky: "key = ''p1''" and e1: "es1 = [(''p0'', Opaque 7)]" by simp_all
  from own k dB nB obtain q where
    o1: "ownerA = firstOwner ?ps Permissions ''p1'' (name exD)"
    and o2: "find (containsKey Permissions ''p1'') [exN, exA] = Some q" and o3: "ownerA = name q"
    unfolding fl ky by blast
  from o2 o3 fnd nm have oa: "ownerA = ''A''" by simp
  from kf fl have kd: "kind = ''permission''" by simp
  have "?ps = pre @ p # post \<and> pre = [exN, exA] \<and> p = exD \<and>
      resolvePlugins pre = Inr r0 \<and>
      kind = ''permission'' \<and> key = ''p1'' \<and> ownerA = ''A'' \<and>
      entriesOf Permissions p = [(''p0'', Opaque 7), (key, Opaque 8)] \<and>
      ownerA = firstOwner ?ps Permissions key (name p) \<and>
      find (containsKey Permissions key) pre = Some exA \<and>
      E = PluginConflictError kind key ownerA (name p)"
    using d pp a1 kd ky oa o1 fnd e eP by (simp only: simp_thms)
  then have "\<exists>pre p post r kind key ownerA.
      ?ps = pre @ p # post \<and> pre = [exN, exA] \<and> p = exD \<and>
      resolvePlugins pre = Inr r \<and>
      kind = ''permission'' \<and> key = ''p1'' \<and> ownerA = ''A'' \<and>
      entriesOf Permissions p = [(''p0'', Opaque 7), (key, Opaque 8)] \<and>
      ownerA = firstOwner ?ps Permissions key (name p) \<and>
      find (containsKey Permissions key) pre = Some exA \<and>
      E = PluginConflictError kind key ownerA (name p)"
    by (intro exI)
  note field = this
  define E' where "E' = PluginConflictError ''auth'' ''auth'' ''A'' ''C''"
  let ?qs = "[exA, exN, exC]"
  have r': "resolvePlugins ?qs = Inl E'" unfolding E'_def by code_simp
  have nt': "E' \<noteq> TypeError" by (simp add: E'_def PluginConflictError_def TypeError_def)
  have eC: "entriesOf fld exC = []" for fld
    by (cases fld) (simp_all add: entriesOf_def example_defs)
  have g1: "resolvePlugins [exA] \<noteq> Inl E'" unfolding E'_def by code_simp
  have g2: "resolvePlugins [exA, exN] \<noteq> Inl E'" unfolding E'_def by code_simp
  have fa: "find (\<lambda>q. auth q \<noteq> None) [exA, exN] = Some exA"
    by (simp add: example_defs)
  from conflict_signal_message [OF r' nt'] obtain pre' p' post' r1 kind' key' ownerA' where
    d': "?qs = pre' @ p' # post'" and b1: "resolvePlugins pre' = Inr r1"
    and b2: "resolvePlugins (pre' @ [p']) = Inl E'"
    and e': "E' = PluginConflictError kind' key' ownerA' (name p')"
    and rel': "kind' = ''auth'' \<and> key' = ''auth'' \<and> auth p' \<noteq> None \<and>
        (\<exists>q. find (\<lambda>q. auth q \<noteq> None) pre' = Some q \<and> ownerA' = name q) \<or>
      (\<exists>fld es1 v es2.
         kind' = kindOf fld \<and> entriesOf fld p' = es1 @ (key', v) # es2 \<and>
         (\<forall>k \<in> fst ` set es1. \<forall>q \<in> set pre'. \<not> containsKey fld k q) \<and>
         (key' \<notin> set objectPrototypeKeys \<longrightarrow>
            ownerA' = firstOwner ?qs fld key' (name p') \<and>
            (distinct (map fst (entriesOf fld p')) \<longrightarrow>
               (\<exists>q \<in> set pre'. containsKey fld key' q) \<and>
               (name p' \<notin> name ` set pre' \<longrightarrow>
                  (\<exists>q. find (containsKey fld key') pre' = Some q \<and> ownerA' = name q)))))"
    by (elim exE conjE)
  from d' consider "pre' = []" "p' = exA" | "pre' = [exA]" "p' = exN"
    | "pre' = [exA, exN]" "p' = exC"
    by (auto simp: Cons_eq_append_conv)
  then have "pre' = [exA, exN] \<and> p' = exC"
  proof cases
    case 1 with b2 g1 show ?thesis by simp
  next
    case 2 with b2 g2 show ?thesis by simp
  next
    case 3 then show ?thesis by simp
  qed
  then have pp': "pre' = [exA, exN]" "p' = exC" by simp_all
  have "\<not> (\<exists>fld es1 v es2. entriesOf fld p' = es1 @ (key', v) # es2)"
    by (simp add: pp' eC)
  with rel' obtain q' where ka: "kind' = ''auth''" and ky': "key' = ''auth''"
    and q1: "find (\<lambda>q. auth q \<noteq> None) pre' = Some q'" and q2: "ownerA' = name q'"
    by blast
  from q1 q2 fa nm have oa': "ownerA' = ''A''" by (simp add: pp')
  have "?qs = pre' @ p' # post' \<and> pre' = [exA, exN] \<and> p' = exC \<and>
      resolvePlugins pre' = Inr r1 \<and>
      kind' = ''auth'' \<and> key' = ''auth'' \<and> ownerA' = ''A'' \<and>
      find (\<lambda>q. auth q \<noteq> None) pre' = Some exA \<and>
      E' = PluginConflictError kind' key' ownerA' (name p')"
    using d' pp' b1 ka ky' oa' fa e' by (simp only: simp_thms)
  then have "\<exists>pre p post r kind key ownerA.
      ?qs = pre @ p # post \<and> pre = [exA, exN] \<and> p = exC \<and>
      resolvePlugins pre = Inr r \<and>
      kind = ''auth'' \<and> key = ''auth'' \<and> ownerA = ''A'' \<and>
      find (\<lambda>q. auth q \<noteq> None) pre = Some exA \<and>
      E' = PluginConflictError kind key ownerA (name p)"
    by (intro exI)
  with r nt m k dB nB field r' show ?thesis unfolding E_def E'_def by (intro conjI)
qed

subsection \<open>C6: swapping two adjacent descriptors\<close>

text \<open>
  C6 as stated: the swap leaves the contents of the \<^verbatim>\<open>roles\<close> mapping unchanged and
  changes an order only inside the integrations, the middleware and the hook lists. The
  slugs of a role are kept in first-seen order, so the swap changes the sequence of a role
  that both descriptors name: x, y becomes y, x.
\<close>

theorem swap_changes_role_order:
  "resolvedRole [exRoleX, exRoleY] ''editor'' = Some [''x'', ''y''] \<and>
   resolvedRole [exRoleY, exRoleX] ''editor'' = Some [''y'', ''x''] \<and>
   resolvedRole [exRoleX, exRoleY] ''editor'' \<noteq> resolvedRole [exRoleY, exRoleX] ''editor''"
proof -
  have 1: "resolvedRole [exRoleX, exRoleY] ''editor'' = Some [''x'', ''y'']"
    by code_simp
  have 2: "resolvedRole [exRoleY, exRoleX] ''editor'' = Some [''y'', ''x'']"
    by code_simp
  from 1 2 show ?thesis by simp
qed

text \<open>
  C6, amended: when a sequence resolves, the sequence with two adjacent descriptors
  swapped resolves too; the permissions, actions and routes map the same keys to the same
  values, the auth provider is the same, the roles mapping has the same role names and
  every role has the same set of slugs; the integrations, the middleware and the four hook
  lists have the same elements with the same multiplicities.
\<close>

theorem swap_adjacent:
  assumes "resolvePlugins (xs @ a # b # ys) = Inr r"
  shows "\<exists>r'. resolvePlugins (xs @ b # a # ys) = Inr r' \<and>
     map_of (ResolvedPlugins.permissions r') = map_of (ResolvedPlugins.permissions r) \<and>
     map_of (ResolvedPlugins.actions r') = map_of (ResolvedPlugins.actions r) \<and>
     map_of (ResolvedPlugins.routes r') = map_of (ResolvedPlugins.routes r) \<and>
     dom (map_of (ResolvedPlugins.roles r')) = dom (map_of (ResolvedPlugins.roles r)) \<and>
     (\<forall>role. set (slugsOf (ResolvedPlugins.roles r') role) =
             set (slugsOf (ResolvedPlugins.roles r) role)) \<and>
     ResolvedPlugins.auth r' = ResolvedPlugins.auth r \<and>
     mset (ResolvedPlugins.integrations r') = mset (ResolvedPlugins.integrations r) \<and>
     mset (ResolvedPlugins.middleware r') = mset (ResolvedPlugins.middleware r) \<and>
     mset (Hooks.onInit (hooks r')) = mset (Hooks.onInit (hooks r)) \<and>
     mset (Hooks.onRequest (hooks r')) = mset (Hooks.onRequest (hooks r)) \<and>
     mset (Hooks.onError (hooks r')) = mset (Hooks.onError (hooks r)) \<and>
     mset (Hooks.onShutdown (hooks r')) = mset (Hooks.onShutdown (hooks r))"
proof -
  let ?ps = "xs @ a # b # ys" and ?qs = "xs @ b # a # ys"
  from assms have ok: "loopOk (resolved initState) ?ps"
    using resolvePlugins_success_iff [of ?ps] by blast
  then have "loopOk (resolved initState) ?qs" by (simp only: loopOk_swap)
  then obtain r' where r': "resolvePlugins ?qs = Inr r'"
    using resolvePlugins_success_iff [of ?qs] by blast
  note f = resolvePlugins_fields [OF assms] and f' = resolvePlugins_fields [OF r']
  have d: "distinct (map fst (concat (map (entriesOf fld) ?ps)))" for fld
    using ok by (cases fld) (simp_all add: loopOk_def freshKeys_def)
  have m: "map_of (concat (map (entriesOf fld) ?qs)) = map_of (concat (map (entriesOf fld) ?ps))" for fld
    using map_of_swap [of "concat (map (entriesOf fld) xs)" "entriesOf fld a" "entriesOf fld b"
        "concat (map (entriesOf fld) ys)"] d [of fld]
    by simp
  from ok have "length (authors ?ps) \<le> 1"
    by (simp add: loopOk_def initState_def)
  then have au: "authors ?ps = authors ?qs" by (rule authors_swap)
  have rl: "set (roleLists ?qs role) = set (roleLists ?ps role)" for role
    by (auto simp: roleLists_def)
  have rn: "set (roleNames ?qs) = set (roleNames ?ps)"
    by (auto simp: roleNames_def)
  have sl: "set (slugsOf (ResolvedPlugins.roles r') role) = set (slugsOf (ResolvedPlugins.roles r) role)"
    for role
    by (simp add: resolvePlugins_roles(1) [OF assms] resolvePlugins_roles(1) [OF r'] rl)
  have dm: "dom (map_of (ResolvedPlugins.roles r')) = dom (map_of (ResolvedPlugins.roles r))"
    by (simp add: dom_map_of_hasOwn resolvePlugins_roles(2) [OF assms]
        resolvePlugins_roles(2) [OF r'] rn)
  have "map_of (ResolvedPlugins.permissions r') = map_of (ResolvedPlugins.permissions r)"
    and "map_of (ResolvedPlugins.actions r') = map_of (ResolvedPlugins.actions r)"
    and "map_of (ResolvedPlugins.routes r') = map_of (ResolvedPlugins.routes r)"
    by (simp_all only: f f' m)
  moreover have "ResolvedPlugins.auth r' = ResolvedPlugins.auth r"
    by (simp only: f f' au)
  moreover have "mset (ResolvedPlugins.integrations r') = mset (ResolvedPlugins.integrations r)"
    and "mset (ResolvedPlugins.middleware r') = mset (ResolvedPlugins.middleware r)"
    and "mset (Hooks.onInit (hooks r')) = mset (Hooks.onInit (hooks r))"
    and "mset (Hooks.onRequest (hooks r')) = mset (Hooks.onRequest (hooks r))"
    and "mset (Hooks.onError (hooks r')) = mset (Hooks.onError (hooks r))"
    and "mset (Hooks.onShutdown (hooks r')) = mset (Hooks.onShutdown (hooks r))"
    by (simp_all add: f f')
  ultimately show ?thesis using r' sl dm by blast
qed

theorem swap_adjacent_witness:
  "\<exists>r r'. resolvePlugins ([] @ exRoleX # exRoleY # []) = Inr r \<and>
     resolvePlugins ([] @ exRoleY # exRoleX # []) = Inr r' \<and>
     map_of (ResolvedPlugins.permissions r') = map_of (ResolvedPlugins.permissions r) \<and>
     set (slugsOf (ResolvedPlugins.roles r') ''editor'') =
       set (slugsOf (ResolvedPlugins.roles r) ''editor'') \<and>
     mset (ResolvedPlugins.integrations r') = mset (ResolvedPlugins.integrations r)"
proof -
  have "case resolvePlugins ([] @ exRoleX # exRoleY # []) of Inr r \<Rightarrow> True | Inl e \<Rightarrow> False"
    by code_simp
  then obtain r where ok: "resolvePlugins ([] @ exRoleX # exRoleY # []) = Inr r"
    by (auto split: sum.splits)
  from swap_adjacent [OF ok] ok show ?thesis by blast
qed

subsection \<open>C7: the inputs are not mutated\<close>

text \<open>
  C7: over the store, \<^verbatim>\<open>resolvePluginsH\<close> is the same program with every array and
  dictionary behind a reference. Whatever the store and the list of descriptors, and whether
  the call returns or throws, the store after the call has the same descriptors, and every
  array and dictionary that existed before the call has the contents it had: all writes
  go to objects that the call allocated itself. The one write whose target is read from
  the store, the push onto \<^verbatim>\<open>resolved.roles[role]\<close>, goes to an array that the call
  created, because the dictionary of roles only ever receives fresh arrays. So the
  descriptors with their integrations, permissions, roles, actions, middleware and routes,
  read from the store after the call, are what they were before it.
\<close>

theorem inputs_unchanged:
  "unchanged h (fst (resolvePluginsH h plugins)) \<and>
   (wfInput h plugins \<longrightarrow>
      inputPlugins (fst (resolvePluginsH h plugins)) plugins = inputPlugins h plugins)"
proof -
  from heapInv_resolveLoopH [OF heapInv_initStateH, of h plugins plugins]
  have "unchanged h (heap (fst (resolveLoopH plugins (initStateH h) plugins)))"
    by (simp add: heapInv_def)
  then have u: "unchanged h (fst (resolvePluginsH h plugins))"
  proof (cases "resolveLoopH plugins (initStateH h) plugins")
    case (Pair st err)
    assume "unchanged h (heap (fst (resolveLoopH plugins (initStateH h) plugins)))"
    with Pair show ?thesis by (cases err) (simp_all add: resolvePluginsH_def)
  qed
  with inputPlugins_unchanged [OF u] show ?thesis by blast
qed

theorem inputs_unchanged_witness:
  "inputPlugins (fst (resolvePluginsH exHeap [0, 1, 0])) [0, 1, 0] = inputPlugins exHeap [0, 1, 0] \<and>
   unchanged exHeap (fst (resolvePluginsH exHeap [0, 1, 0])) \<and>
   snd (resolvePluginsH exHeap [0, 1, 0]) = Inl (PluginConflictError ''auth'' ''auth'' ''A'' ''A'')"
proof -
  have w: "wfInput exHeap [0, 1, 0]"
    by (simp add: wfInput_def wfPluginRef_def inRange_def exHeap_def)
  have e: "snd (resolvePluginsH exHeap [0, 1, 0]) = Inl (PluginConflictError ''auth'' ''auth'' ''A'' ''A'')"
    by code_simp
  from inputs_unchanged [of exHeap "[0, 1, 0]"] w e show ?thesis by blast
qed

subsection \<open>C8: fail-fast, all or nothing\<close>

text \<open>
  C8 says that \<^verbatim>\<open>resolvePlugins\<close> either returns the resolved configuration or
  raises a conflict. A descriptor with a role named \<^verbatim>\<open>constructor\<close> and one slug
  makes it throw a \<^verbatim>\<open>TypeError\<close>, which is neither: the accumulator of roles
  inherits \<^verbatim>\<open>constructor\<close>, no array is created for the role, and the inherited
  function has no \<^verbatim>\<open>includes\<close>.
\<close>

theorem inherited_role_type_error:
  "resolvePlugins [(plugin0 ''A'')\<lparr>roles := Some [(''constructor'', [''x''])]\<rparr>] = Inl TypeError \<and>
   errName TypeError \<noteq> ''PluginConflictError''"
proof -
  have "resolvePlugins [(plugin0 ''A'')\<lparr>roles := Some [(''constructor'', [''x''])]\<rparr>] = Inl TypeError"
    by code_simp
  moreover have "errName TypeError \<noteq> ''PluginConflictError''"
    by (simp add: TypeError_def)
  ultimately show ?thesis by blast
qed

subsection \<open>C9: the first owner of auth is always defined\<close>

text \<open>
  C9: after any number of passes of the loop that did not throw, \<^verbatim>\<open>resolved.auth\<close>
  is set exactly when \<^verbatim>\<open>authSource\<close> is, and then \<^verbatim>\<open>authSource\<close> is the name of
  the processed descriptor that supplied that auth provider. So when the auth block of the
  next descriptor \<open>q\<close> throws, the first owner in the conflict is the name of a descriptor,
  never the text that an undefined \<^verbatim>\<open>authSource\<close> would give.
\<close>

theorem authSource_defined:
  assumes "resolveLoop plugins initState ps = Inr st"
  shows "(ResolvedPlugins.auth (resolved st) \<noteq> None) = (authSource st \<noteq> None) \<and>
    (\<forall>a. ResolvedPlugins.auth (resolved st) = Some a \<longrightarrow>
       (\<exists>p \<in> set ps. auth p = Some a \<and> authSource st = Some (name p))) \<and>
    (\<forall>q e. stepAuth q (st\<lparr>resolved := stepIntegrations q (resolved st)\<rparr>) = Inl e \<longrightarrow>
       (\<exists>p \<in> set ps. auth p \<noteq> None \<and> authSource st = Some (name p) \<and>
          e = PluginConflictError ''auth'' ''auth'' (name p) (name q)))"
proof (cases "authors ps")
  case Nil
  with resolveLoop_auth [OF assms]
  have "ResolvedPlugins.auth (resolved st) = None" and "authSource st = None"
    by (simp_all add: initState_def)
  then show ?thesis
    by (auto simp: stepAuth_def stepIntegrations_eq split: option.splits)
next
  case (Cons p qs)
  with resolveLoop_auth [OF assms]
  have a: "ResolvedPlugins.auth (resolved st) = auth p" and s: "authSource st = Some (name p)"
    by simp_all
  from Cons have "p \<in> set (authors ps)" by simp
  then have p: "p \<in> set ps" and ap: "auth p \<noteq> None"
    by (simp_all add: authors_def)
  from a s p ap show ?thesis
    by (auto simp: stepAuth_def stepIntegrations_eq split: option.splits)
qed

theorem authSource_defined_witness:
  "\<exists>st. resolveLoop [exA, exN, exC] initState [exA, exN] = Inr st \<and>
     ResolvedPlugins.auth (resolved st) = Some (Opaque 1) \<and> authSource st = Some ''A''"
proof -
  have "case resolveLoop [exA, exN, exC] initState [exA, exN] of
          Inr st \<Rightarrow> ResolvedPlugins.auth (resolved st) = Some (Opaque 1) | Inl e \<Rightarrow> False"
    by code_simp
  then obtain st where l: "resolveLoop [exA, exN, exC] initState [exA, exN] = Inr st"
    and a: "ResolvedPlugins.auth (resolved st) = Some (Opaque 1)"
    by (auto split: sum.splits)
  from authSource_defined [OF l] a obtain p where
    p: "p \<in> set [exA, exN]" "auth p = Some (Opaque 1)" "authSource st = Some (name p)"
    by blast
  have "auth exN = None" and "name exA = ''A''" by (simp_all add: example_defs)
  with p have "authSource st = Some ''A''" by auto
  with l a show ?thesis by blast
qed

subsection \<open>C10: a slug listed twice by one descriptor\<close>

text \<open>
  C10: when a descriptor lists a slug for a role, however often, the resolved sequence of
  that role has the slug exactly once. For a single descriptor the sequence has the slugs
  of the list and no others, and the slugs in front of a given one are the distinct slugs in
  front of its first occurrence in the list: the slug sits where it first occurred.
\<close>

theorem role_slug_once:
  "(resolvePlugins ps = Inr r \<longrightarrow> p \<in> set ps \<longrightarrow> roles p = Some es \<longrightarrow>
      (role, perms) \<in> set es \<longrightarrow> slug \<in> set perms \<longrightarrow>
      (\<exists>xs. map_of (ResolvedPlugins.roles r) role = Some xs \<and> count_list xs slug = 1)) \<and>
   (resolvePlugins [q] = Inr r' \<longrightarrow> roles q = Some es' \<longrightarrow> distinct (map fst es') \<longrightarrow>
      (role, perms) \<in> set es' \<longrightarrow> slug \<in> set perms \<longrightarrow>
      (\<exists>xs. map_of (ResolvedPlugins.roles r') role = Some xs \<and> count_list xs slug = 1 \<and>
         set xs = set perms \<and>
         takeWhile (\<lambda>y. y \<noteq> slug) xs = firstSeen (takeWhile (\<lambda>y. y \<noteq> slug) perms)))"
proof (intro conjI impI)
  assume ok: "resolvePlugins ps = Inr r" and p: "p \<in> set ps" and es: "roles p = Some es"
    and m: "(role, perms) \<in> set es" and s: "slug \<in> set perms"
  from es m have "set perms \<subseteq> set (listsFor role (roleEntries p))"
    by (simp add: roleEntries_def listsFor_member)
  with p have "set perms \<subseteq> set (roleLists ps role)"
    by (auto simp: roleLists_def)
  with s have in_union: "slug \<in> set (roleLists ps role)" by blast
  then have "roleLists ps role \<noteq> []" by auto
  from resolvePlugins_role_entry [OF ok this] in_union
  show "\<exists>xs. map_of (ResolvedPlugins.roles r) role = Some xs \<and> count_list xs slug = 1"
    by (simp add: count_list_distinct)
next
  assume ok: "resolvePlugins [q] = Inr r'" and es: "roles q = Some es'"
    and d: "distinct (map fst es')" and m: "(role, perms) \<in> set es'" and s: "slug \<in> set perms"
  from es have "roleLists [q] role = listsFor role es'"
    by (simp add: roleLists_def roleEntries_def)
  with listsFor_single [OF d m] have u: "roleLists [q] role = perms" by simp
  with s have "roleLists [q] role \<noteq> []" by auto
  from resolvePlugins_role_entry [OF ok this] s
  show "\<exists>xs. map_of (ResolvedPlugins.roles r') role = Some xs \<and> count_list xs slug = 1 \<and>
         set xs = set perms \<and>
         takeWhile (\<lambda>y. y \<noteq> slug) xs = firstSeen (takeWhile (\<lambda>y. y \<noteq> slug) perms)"
    by (simp add: u count_list_distinct firstSeen_takeWhile)
qed

theorem role_slug_once_witness:
  "\<exists>r. resolvePlugins [exTwice] = Inr r \<and>
     (\<exists>xs. map_of (ResolvedPlugins.roles r) ''editor'' = Some xs \<and> count_list xs ''x'' = 1 \<and>
        set xs = set [''y'', ''x'', ''x''] \<and>
        takeWhile (\<lambda>y. y \<noteq> ''x'') xs = firstSeen (takeWhile (\<lambda>y. y \<noteq> ''x'') [''y'', ''x'', ''x'']))"
proof -
  have "case resolvePlugins [exTwice] of Inr r \<Rightarrow> True | Inl e \<Rightarrow> False"
    by code_simp
  then obtain r where ok: "resolvePlugins [exTwice] = Inr r"
    by (auto split: sum.splits)
  have es: "roles exTwice = Some [(''editor'', [''y'', ''x'', ''x''])]"
    by (simp add: role_example_defs)
  have d: "distinct (map fst [(''editor'', [''y'', ''x'', ''x''])])" by simp
  have m: "(''editor'', [''y'', ''x'', ''x'']) \<in> set [(''editor'', [''y'', ''x'', ''x''])]" by simp
  have s: "''x'' \<in> set [''y'', ''x'', ''x'']" by simp
  have i: "exTwice \<in> set [exTwice]" by simp
  from role_slug_once [of "[exTwice]" r exTwice "[(''editor'', [''y'', ''x'', ''x''])]"
      "''editor''" "[''y'', ''x'', ''x'']" "''x''" exTwice r "[(''editor'', [''y'', ''x'', ''x''])]"]
    ok es d m s i
  show ?thesis by blast
qed

end
